theory Spec2Isabelle
  imports Main "HOL-Library.AList"
begin

section \<open>JavaScript values, objects and errors\<close>

text \<open>
  Exceptions are values. \<open>TypeError\<close> is what reading a property of \<open>undefined\<close> or
  serialising a circular structure throws, \<open>SyntaxError\<close> what \<open>JSON.parse(undefined)\<close>
  throws, \<open>Error msg\<close> an explicit \<open>throw new Error(msg)\<close> or a failed file-system
  call (the message its code), \<open>Exit code\<close> the \<open>new Error(code)\<close> with which \<open>spawn\<close>
  rejects on a non-zero exit code. \<open>Dangling\<close> is not a
  JavaScript outcome: it marks a reference that points outside the store, which no
  JavaScript heap contains; it is kept apart so that no statement about \<open>TypeError\<close> can be
  satisfied by it.
\<close>

datatype error = TypeError | SyntaxError | Error string | Exit nat | Dangling

type_synonym addr = nat

text \<open>
  A plain object used as a dictionary from package names to node objects: its own
  properties in insertion order, each holding a reference. A lookup sees own properties
  only; the names every object inherits from \<open>Object.prototype\<close> are left out.
\<close>

type_synonym objmap = "(string \<times> addr) list"

text \<open>
  A node of the DependenciesMap, \<open>{ version, dir, main, dependencies }\<close>. Nodes live in
  a store; a reference is an index into it, and allocation appends.
\<close>

record node =
  version :: string
  dir :: string
  main :: string
  dependencies :: objmap

type_synonym heap = "node list"

text \<open>
  The values \<open>findModule\<close> handles: \<open>null\<close>, \<open>undefined\<close>, a reference to a node, and the
  object literal \<open>{ dependencies: dependenciesMap }\<close> that seeds the \<open>reduce\<close>.
\<close>

datatype jsval = Null | Undefined | Ref addr | Literal objmap

fun truthy :: "jsval \<Rightarrow> bool" where
  "truthy Null = False"
| "truthy Undefined = False"
| "truthy (Ref a) = True"
| "truthy (Literal m) = True"

text \<open>\<open>obj[p]\<close> on a dictionary object: the reference stored under \<open>p\<close>, or \<open>undefined\<close>.\<close>

definition prop_get :: "objmap \<Rightarrow> string \<Rightarrow> jsval" where
  "prop_get m p = (case map_of m p of None \<Rightarrow> Undefined | Some a \<Rightarrow> Ref a)"

section \<open>Paths and patterns\<close>

definition ends_with :: "string \<Rightarrow> string \<Rightarrow> bool" where
  "ends_with suf s = (length suf \<le> length s \<and> drop (length s - length suf) s = suf)"

definition starts_with :: "string \<Rightarrow> string \<Rightarrow> bool" where
  "starts_with pre s = (take (length pre) s = pre)"

text \<open>
  Node's \<open>path.basename\<close>, \<open>path.dirname\<close> and \<open>path.join\<close> on POSIX paths, for operands
  that are already normalised (no empty, \<open>.\<close> or \<open>..\<close> segment, no trailing slash), so
  that joining is putting a slash between the operands. The only normalisation kept is
  the one the code relies on: \<open>path.dirname\<close> of a name without a slash is \<open>.\<close>, and
  joining \<open>.\<close> onto a path leaves the path.
\<close>

definition basename :: "string \<Rightarrow> string" where
  "basename p = rev (takeWhile (\<lambda>c. c \<noteq> CHR ''/'') (rev p))"

definition dirname :: "string \<Rightarrow> string" where
  "dirname p =
     (if CHR ''/'' \<notin> set p then ''.''
      else let d = rev (drop 1 (dropWhile (\<lambda>c. c \<noteq> CHR ''/'') (rev p)))
           in if d = [] then ''/'' else d)"

definition path_join :: "string \<Rightarrow> string \<Rightarrow> string" where
  "path_join a b = (if b = ''.'' then a else a @ ''/'' @ b)"

text \<open>\<open>\w\<close> and \<open>[0-9a-f]\<close>.\<close>

definition is_word :: "char \<Rightarrow> bool" where
  "is_word c = (let n = (of_char c :: nat) in
     (48 \<le> n \<and> n \<le> 57) \<or> (65 \<le> n \<and> n \<le> 90) \<or> n = 95 \<or> (97 \<le> n \<and> n \<le> 122))"

definition is_hex :: "char \<Rightarrow> bool" where
  "is_hex c = (let n = (of_char c :: nat) in (48 \<le> n \<and> n \<le> 57) \<or> (97 \<le> n \<and> n \<le> 102))"

text \<open>
  \<open>RE_EXT = /(\.\w+)$/\<close>. A match ends the string and \<open>.\<close> is no word character, so the
  match is the last \<open>.\<close> with the non-empty run of word characters after it:
  \<open>ext_match s\<close> is the text before the match and the group \<open>$1\<close>.
\<close>

definition ext_match :: "string \<Rightarrow> (string \<times> string) option" where
  "ext_match s =
     (let w = takeWhile is_word (rev s); rest = dropWhile is_word (rev s)
      in if w \<noteq> [] \<and> rest \<noteq> [] \<and> hd rest = CHR ''.''
         then Some (rev (tl rest), CHR ''.'' # rev w) else None)"

text \<open>\<open>s.replace(RE_EXT, r)\<close>, the replacement given as a function of the group \<open>$1\<close>.\<close>

definition replace_RE_EXT :: "(string \<Rightarrow> string) \<Rightarrow> string \<Rightarrow> string" where
  "replace_RE_EXT r s = (case ext_match s of None \<Rightarrow> s | Some (stem, ext) \<Rightarrow> stem @ r ext)"

text \<open>\<open>s.replace(/^\.\//, '')\<close> and \<open>s.replace(/\.js$/, '')\<close>.\<close>

definition strip_dot_slash :: "string \<Rightarrow> string" where
  "strip_dot_slash s = (if starts_with ''./'' s then drop 2 s else s)"

definition strip_js :: "string \<Rightarrow> string" where
  "strip_js s = (if ends_with ''.js'' s then take (length s - 3) s else s)"

section \<open>findModule (lib/compileAll.js)\<close>

text \<open>
  The callback of the \<open>reduce\<close>: \<open>obj.dependencies[p]\<close>. Reading \<open>.dependencies\<close> of
  \<open>undefined\<close> or \<open>null\<close> throws a TypeError.
\<close>

fun deps_lookup :: "heap \<Rightarrow> jsval \<Rightarrow> string \<Rightarrow> error + jsval" where
  "deps_lookup h (Literal m) p = Inr (prop_get m p)"
| "deps_lookup h (Ref a) p =
     (if a < length h then Inr (prop_get (dependencies (h ! a)) p) else Inl Dangling)"
| "deps_lookup h Undefined p = Inl TypeError"
| "deps_lookup h Null p = Inl TypeError"

fun reduce_from :: "heap \<Rightarrow> jsval \<Rightarrow> string list \<Rightarrow> error + jsval" where
  "reduce_from h obj [] = Inr obj"
| "reduce_from h obj (p # ps) =
     (case deps_lookup h obj p of Inl e \<Rightarrow> Inl e | Inr v \<Rightarrow> reduce_from h v ps)"

text \<open>\<open>route.reduce(function(obj, p) {...}, { dependencies: dependenciesMap })\<close>\<close>

definition reduce :: "heap \<Rightarrow> objmap \<Rightarrow> string list \<Rightarrow> error + jsval" where
  "reduce h dependenciesMap route = reduce_from h (Literal dependenciesMap) route"

text \<open>
  \<open>route.splice(-2, 1)\<close>: the start index is \<open>max (length - 2) 0\<close> and one element is
  removed there. On a route of one segment this removes that segment.
\<close>

definition splice_m2 :: "'a list \<Rightarrow> 'a list" where
  "splice_m2 xs = take (length xs - 2) xs @ drop (Suc (length xs - 2)) xs"

lemma length_splice_m2: "xs \<noteq> [] \<Longrightarrow> length (splice_m2 xs) < length xs"
  by (cases xs) (auto simp: splice_m2_def)

text \<open>
  \<open>JSON.stringify\<close> of a node: the tree below it. The store may hold a cycle, on which
  JavaScript throws a TypeError; a path through an acyclic store visits at most
  \<open>length h\<close> nodes, so running out of that much fuel is the circular case.
\<close>

datatype json = JObj string string string "(string \<times> json) list"

fun stringify :: "nat \<Rightarrow> heap \<Rightarrow> addr \<Rightarrow> json option"
  and stringify_props :: "nat \<Rightarrow> heap \<Rightarrow> objmap \<Rightarrow> (string \<times> json) list option" where
  "stringify 0 h a = None"
| "stringify (Suc n) h a =
     (if a < length h then
        map_option (JObj (version (h ! a)) (dir (h ! a)) (main (h ! a)))
          (stringify_props n h (dependencies (h ! a)))
      else None)"
| "stringify_props n h [] = Some []"
| "stringify_props n h ((k, c) # r) =
     (case stringify n h c of
        None \<Rightarrow> None
      | Some j \<Rightarrow> map_option ((#) (k, j)) (stringify_props n h r))"

text \<open>\<open>JSON.parse\<close>: every object of the text is allocated anew, children first.\<close>

fun parse :: "json \<Rightarrow> heap \<Rightarrow> heap \<times> addr"
  and parse_props :: "(string \<times> json) list \<Rightarrow> heap \<Rightarrow> heap \<times> objmap" where
  "parse (JObj v d m kids) h =
     (case parse_props kids h of (h', ds) \<Rightarrow>
        (h' @ [\<lparr>version = v, dir = d, main = m, dependencies = ds\<rparr>], length h'))"
| "parse_props [] h = (h, [])"
| "parse_props ((k, j) # r) h =
     (case parse j h of (h1, a) \<Rightarrow>
        (case parse_props r h1 of (h2, ds) \<Rightarrow> (h2, (k, a) # ds)))"

text \<open>
  \<open>JSON.parse(JSON.stringify(v))\<close>. \<open>JSON.stringify(undefined)\<close> is \<open>undefined\<close>, which
  \<open>JSON.parse\<close> rejects with a SyntaxError.
\<close>

fun deep_copy :: "heap \<Rightarrow> jsval \<Rightarrow> error + (heap \<times> addr)" where
  "deep_copy h (Ref a) =
     (if a < length h then
        (case stringify (length h) h a of None \<Rightarrow> Inl TypeError | Some j \<Rightarrow> Inr (parse j h))
      else Inl Dangling)"
| "deep_copy h Undefined = Inl SyntaxError"
| "deep_copy h Null = Inl SyntaxError"
| "deep_copy h (Literal m) = Inl Dangling"

text \<open>
  The body of \<open>if (result && requiredMap)\<close>:
  \<open>requiredMap[name] = JSON.parse(JSON.stringify(dependenciesMap[name]))\<close> with
  \<open>name = route[0]\<close>. Assigning a property updates it in place or appends it.
\<close>

definition store_required ::
  "heap \<Rightarrow> objmap \<Rightarrow> objmap \<Rightarrow> string list \<Rightarrow> error + (heap \<times> objmap)" where
  "store_required h dependenciesMap requiredMap route =
     (case route of
        [] \<Rightarrow> Inl SyntaxError
      | name # _ \<Rightarrow>
          (case deep_copy h (prop_get dependenciesMap name) of
             Inl e \<Rightarrow> Inl e
           | Inr (h', a) \<Rightarrow> Inr (h', AList.update name a requiredMap)))"

text \<open>
  One pass through the body of the loop, up to the \<open>splice\<close>: the walk, then the
  store into the sink under \<open>if (result && requiredMap)\<close>. The sink is \<open>None\<close> when
  the caller passed none.
\<close>

definition attempt ::
  "heap \<Rightarrow> objmap \<Rightarrow> objmap option \<Rightarrow> string list
     \<Rightarrow> error + (jsval \<times> heap \<times> objmap option)" where
  "attempt h dependenciesMap requiredMap route =
     (case reduce h dependenciesMap route of
        Inl e \<Rightarrow> Inl e
      | Inr result \<Rightarrow>
          (case requiredMap of
             Some rm \<Rightarrow>
               if truthy result then
                 (case store_required h dependenciesMap rm route of
                    Inl e \<Rightarrow> Inl e
                  | Inr (h', rm') \<Rightarrow> Inr (result, h', Some rm'))
               else Inr (result, h, requiredMap)
           | None \<Rightarrow> Inr (result, h, requiredMap)))"

text \<open>
  The \<open>while (!result && route.length)\<close> loop. The state is the store, the sink,
  \<open>result\<close> and the working copy of the route.
\<close>

function findModule_loop ::
  "heap \<Rightarrow> objmap \<Rightarrow> objmap option \<Rightarrow> jsval \<Rightarrow> string list
     \<Rightarrow> error + (jsval \<times> heap \<times> objmap option)" where
  "findModule_loop h dependenciesMap requiredMap result route =
     (if \<not> truthy result \<and> route \<noteq> [] then
        (case attempt h dependenciesMap requiredMap route of
           Inl e \<Rightarrow> Inl e
         | Inr (result', h', requiredMap') \<Rightarrow>
             findModule_loop h' dependenciesMap requiredMap' result' (splice_m2 route))
      else Inr (result, h, requiredMap))"
  by pat_completeness auto
termination
  by (relation "measure (\<lambda>(h, dm, rm, result, route). length route)")
     (auto simp: length_splice_m2)

text \<open>\<open>findModule(route, dependenciesMap, requiredMap)\<close>: \<open>result\<close> starts as \<open>null\<close>.\<close>

definition findModule ::
  "heap \<Rightarrow> string list \<Rightarrow> objmap \<Rightarrow> objmap option
     \<Rightarrow> error + (jsval \<times> heap \<times> objmap option)" where
  "findModule h route dependenciesMap requiredMap =
     findModule_loop h dependenciesMap requiredMap Null route"

subsection \<open>The algorithm in the words of the specification\<close>

text \<open>
  The specification's RouteFinder: walk the full route as nested lookups; if unresolved,
  drop the second-to-last segment and retry while the route still has a segment to drop.
  An unresolved walk is \<open>None\<close>, wherever along the route the lookup fails.
\<close>

fun walk_spec :: "heap \<Rightarrow> objmap \<Rightarrow> string list \<Rightarrow> addr option" where
  "walk_spec h m [] = None"
| "walk_spec h m [p] = map_of m p"
| "walk_spec h m (p # q # ps) =
     (case map_of m p of
        None \<Rightarrow> None
      | Some a \<Rightarrow> if a < length h then walk_spec h (dependencies (h ! a)) (q # ps) else None)"

definition drop_second_to_last :: "'a list \<Rightarrow> 'a list" where
  "drop_second_to_last xs = butlast (butlast xs) @ [last xs]"

lemma length_drop_second_to_last:
  "2 \<le> length xs \<Longrightarrow> length (drop_second_to_last xs) < length xs"
  by (simp add: drop_second_to_last_def)

function findModule_spec :: "heap \<Rightarrow> objmap \<Rightarrow> string list \<Rightarrow> addr option" where
  "findModule_spec h dm route =
     (case walk_spec h dm route of
        Some a \<Rightarrow> Some a
      | None \<Rightarrow>
          if 2 \<le> length route then findModule_spec h dm (drop_second_to_last route)
          else None)"
  by pat_completeness auto
termination
  by (relation "measure (\<lambda>(h, dm, route). length route)")
     (auto simp: length_drop_second_to_last)

section \<open>The precompile scheduler (lib/Cache.js)\<close>

text \<open>The module handed to \<open>precompile\<close>: \<open>{ name, version, entry }\<close>.\<close>

record module_t =
  mod_name :: string
  mod_version :: string
  mod_entry :: string

definition identity :: "module_t \<Rightarrow> string" where
  "identity m = mod_name m @ ''/'' @ mod_version m"

text \<open>
  \<open>precompileQueue\<close> is a chain of promises, each link made by
  \<open>precompileQueue.then(onFulfilled, onRejected)\<close>. The model keeps the settlement of the
  newest settled promise of the chain and the links whose callbacks have not run yet,
  oldest first; a link is the closure of its two callbacks, the module and \<open>dest\<close>.
  \<open>spawned\<close> records the command and the argument list of every out-of-process run and
  \<open>console\<close> the lines written by \<open>console.error\<close>.
\<close>

datatype promise = Fulfilled | Rejected error

record job =
  job_mod :: module_t
  job_dest :: string

record scheduler =
  precompiling :: "string list"
  settled :: promise
  pending :: "job list"
  spawned :: "(string \<times> string list) list"
  console :: "string list"

text \<open>The module-level state at load time: \<open>Promise.resolve()\<close> and \<open>[]\<close>.\<close>

definition initial :: scheduler where
  "initial = \<lparr>precompiling = [], settled = Fulfilled, pending = [], spawned = [], console = []\<rparr>"

text \<open>
  What a job observes outside this file: the path returned by \<open>findModule(mod,
  dependenciesMap)\<close> of lib/findModule.js (\<open>''''\<close> for a falsy result), \<open>exists\<close>,
  \<open>lstat(...).isSymbolicLink()\<close> (\<open>None\<close> when \<open>lstat\<close> throws), the exit code of the
  spawned process, and the two paths \<open>process.argv[0]\<close> and
  \<open>path.join(__dirname, '../bin/compileModule.js')\<close>.
\<close>

record job_env =
  module_path :: "module_t \<Rightarrow> string"
  exists_path :: "string \<Rightarrow> bool"
  is_symlink :: "string \<Rightarrow> bool option"
  exit_code :: "string \<Rightarrow> string list \<Rightarrow> nat"
  argv0 :: string
  script :: string

text \<open>
  \<open>while (fpath && !/node_modules$/.test(fpath)) fpath = path.dirname(fpath)\<close>. The loop
  does not end on a path with no ancestor named \<open>node_modules\<close>, since \<open>path.dirname\<close>
  has the fixed points \<open>/\<close> and \<open>.\<close>: \<open>None\<close> is that case.
\<close>

partial_function (option) climb :: "string \<Rightarrow> string option" where
  "climb fpath =
     (if fpath \<noteq> [] \<and> \<not> ends_with ''node_modules'' fpath then climb (dirname fpath)
      else Some fpath)"

declare climb.simps [code]

text \<open>
  \<open>for (let i = precompiling.length - 1; i >= 0; i--)
     if (precompiling[i] === id) precompiling.splice(i, 1)\<close>;
  \<open>remove_id n\<close> has the indices below \<open>n\<close> still to visit.
\<close>

fun remove_id :: "nat \<Rightarrow> string \<Rightarrow> string list \<Rightarrow> string list" where
  "remove_id 0 ident xs = xs"
| "remove_id (Suc i) ident xs =
     remove_id i ident (if xs ! i = ident then take i xs @ drop (Suc i) xs else xs)"

text \<open>
  The generator \<open>precompile(mod, opts)\<close> run to completion by \<open>co\<close>: the settlement of
  the promise \<open>co\<close> returns and the state it leaves; \<open>None\<close> when the climbing loop does
  not end. A rejected \<open>spawn\<close> is thrown into the generator at the \<open>yield\<close>, so nothing
  after it runs.
\<close>

definition precompile :: "job_env \<Rightarrow> job \<Rightarrow> scheduler \<Rightarrow> (promise \<times> scheduler) option" where
  "precompile env j s =
     (case climb (module_path env (job_mod j)) of
        None \<Rightarrow> None
      | Some fpath \<Rightarrow>
          Some
            (if \<not> exists_path env fpath then
               (Fulfilled,
                s\<lparr>console := console s @ [''Failed to find module '' @ mod_name (job_mod j)]\<rparr>)
             else
               (case is_symlink env (path_join fpath (mod_name (job_mod j))) of
                  None \<Rightarrow> (Rejected (Error ''ENOENT''), s)
                | Some True \<Rightarrow> (Fulfilled, s)
                | Some False \<Rightarrow>
                    (let args =
                           [script env,
                            ''--id'',
                            path_join (path_join (mod_name (job_mod j)) (mod_version (job_mod j)))
                              (replace_RE_EXT (\<lambda>ext. '''') (mod_entry (job_mod j))),
                            ''--dest'', job_dest j,
                            ''--paths'', fpath,
                            ''--source-root'', ''/''];
                         s1 = s\<lparr>spawned := spawned s @ [(argv0 env, args)]\<rparr>
                     in if exit_code env (argv0 env) args = 0 then
                          (Fulfilled,
                           s1\<lparr>precompiling :=
                                 remove_id (length (precompiling s1)) (identity (job_mod j))
                                   (precompiling s1)\<rparr>)
                        else (Rejected (Exit (exit_code env (argv0 env) args)), s1)))))"

text \<open>
  The event loop runs the oldest link. If the promise before it is fulfilled,
  \<open>onFulfilled\<close> runs the job and the link settles as the job does. If it is rejected,
  \<open>onRejected\<close> writes two lines to the console and returns, so the link is fulfilled:
  the job of this link is not run.
\<close>

definition run_next :: "job_env \<Rightarrow> scheduler \<Rightarrow> scheduler option" where
  "run_next env s =
     (case pending s of
        [] \<Rightarrow> Some s
      | j # rest \<Rightarrow>
          (case settled s of
             Rejected err \<Rightarrow>
               Some (s\<lparr>pending := rest, settled := Fulfilled,
                       console := console s @
                         [''Failed to cache '' @ mod_name (job_mod j) @ ''@'' @ mod_version (job_mod j),
                          ''err.stack'']\<rparr>)
           | Fulfilled \<Rightarrow>
               (case precompile env j s of
                  None \<Rightarrow> None
                | Some (p, s') \<Rightarrow> Some (s'\<lparr>pending := rest, settled := p\<rparr>))))"

text \<open>
  \<open>opts.system.modules[name][version]\<close>: nested dictionaries; the only field read of the
  entry is \<open>main\<close>, \<open>None\<close> when it is undefined.
\<close>

type_synonym system_modules = "(string \<times> (string \<times> string option) list) list"

record cache =
  dest :: string
  encoding :: "string option"

text \<open>
  \<open>Cache.precompile(mod, opts)\<close>. A TypeError is raised, after the identity was pushed,
  when \<open>system.modules\<close> has no entry for the name or the version.
\<close>

definition Cache_precompile ::
  "cache \<Rightarrow> module_t \<Rightarrow> system_modules \<Rightarrow> scheduler \<Rightarrow> error option \<times> scheduler" where
  "Cache_precompile c m modules s =
     (if identity m \<in> set (precompiling s) then (None, s)
      else
        (let s1 = s\<lparr>precompiling := precompiling s @ [identity m]\<rparr> in
         case map_of modules (mod_name m) of
           None \<Rightarrow> (Some TypeError, s1)
         | Some versions \<Rightarrow>
             (case map_of versions (mod_version m) of
                None \<Rightarrow> (Some TypeError, s1)
              | Some data_main \<Rightarrow>
                  (let main = (case data_main of
                                 None \<Rightarrow> ''index''
                               | Some t \<Rightarrow> if t = [] then ''index'' else strip_js (strip_dot_slash t))
                   in if main @ ''.js'' \<noteq> mod_entry m then (None, s1)
                      else (None, s1\<lparr>pending := pending s1 @ [\<lparr>job_mod = m, job_dest = dest c\<rparr>]\<rparr>)))))"

section \<open>The content-addressed cache (lib/Cache.js)\<close>

text \<open>
  \<open>/-[0-9a-f]{32}(\.(?:js|css))$/\<close> for one of the two extensions: the text before the
  match, when \<open>e\<close> ends with a dash, 32 lower-case hexadecimal digits and the extension.
\<close>

definition checksum_match :: "string \<Rightarrow> string \<Rightarrow> string option" where
  "checksum_match ext e =
     (let n = length e - (33 + length ext)
      in if 33 + length ext \<le> length e \<and> drop (n + 33) e = ext \<and> e ! n = CHR ''-''
            \<and> list_all is_hex (take 32 (drop (Suc n) e))
         then Some (take n e) else None)"

text \<open>\<open>entry.replace(/-[0-9a-f]{32}(\.(?:js|css))$/, '$1')\<close>\<close>

definition strip_checksum :: "string \<Rightarrow> string" where
  "strip_checksum e =
     (case checksum_match ''.js'' e of
        Some stem \<Rightarrow> stem @ ''.js''
      | None \<Rightarrow>
          (case checksum_match ''.css'' e of
             Some stem \<Rightarrow> stem @ ''.css''
           | None \<Rightarrow> e))"

text \<open>
  Modelled from the spec: the file-system helpers of lib/fs.js and lib/mkdirp.js, which
  are not among the sources (existence checks, reads, writes, directory listing and
  creation, deletion), taken to be the calls of Node's \<open>fs\<close> of the same names. The disk
  is a table from paths to entries; \<open>/\<close> and \<open>.\<close> are directories that always exist. A
  failed call is the error carrying its code.

  A file holds bytes. What is written or read is a string or a Buffer of bytes.
  \<open>writeFile(path, content)\<close> stores a Buffer as it is and a string as the bytes of its
  UTF-8 encoding; \<open>readFile(path, encoding)\<close> returns a Buffer of the bytes when the
  encoding is falsy (undefined or the empty string) and the string
  \<open>buffer.toString(encoding)\<close> otherwise. Node's conversions between strings and bytes
  are parameters: \<open>utf8_bytes\<close> for the bytes of a string, \<open>decoder e\<close> for
  \<open>toString(e)\<close>, \<open>None\<close> when \<open>e\<close> names no encoding (the call then throws).
\<close>

type_synonym bytes = string

datatype data = Text string | Buffer bytes

record codec =
  utf8_bytes :: "string \<Rightarrow> bytes"
  decoder :: "string \<Rightarrow> (bytes \<Rightarrow> string) option"

datatype entry = File bytes | Directory

type_synonym fs = "(string \<times> entry) list"

definition exists :: "fs \<Rightarrow> string \<Rightarrow> bool" where
  "exists disk p = (p = ''/'' \<or> p = ''.'' \<or> map_of disk p \<noteq> None)"

definition is_dir :: "fs \<Rightarrow> string \<Rightarrow> bool" where
  "is_dir disk p = (p = ''/'' \<or> p = ''.'' \<or> map_of disk p = Some Directory)"

definition presented :: "codec \<Rightarrow> string option \<Rightarrow> error + (bytes \<Rightarrow> data)" where
  "presented K enc =
     (case enc of
        None \<Rightarrow> Inr Buffer
      | Some e \<Rightarrow>
          if e = [] then Inr Buffer
          else (case decoder K e of
                  None \<Rightarrow> Inl (Error (''Unknown encoding: '' @ e))
                | Some toString \<Rightarrow> Inr (\<lambda>b. Text (toString b))))"

definition readFile :: "codec \<Rightarrow> fs \<Rightarrow> string \<Rightarrow> string option \<Rightarrow> error + data" where
  "readFile K disk p enc =
     (case presented K enc of
        Inl e \<Rightarrow> Inl e
      | Inr present \<Rightarrow>
          (case map_of disk p of
             Some (File b) \<Rightarrow> Inr (present b)
           | Some Directory \<Rightarrow> Inl (Error ''EISDIR'')
           | None \<Rightarrow> Inl (Error (if is_dir disk p then ''EISDIR'' else ''ENOENT''))))"

definition written :: "codec \<Rightarrow> data \<Rightarrow> bytes" where
  "written K content = (case content of Text t \<Rightarrow> utf8_bytes K t | Buffer b \<Rightarrow> b)"

definition writeFile :: "codec \<Rightarrow> fs \<Rightarrow> string \<Rightarrow> data \<Rightarrow> error + fs" where
  "writeFile K disk p content =
     (if is_dir disk p then Inl (Error ''EISDIR'')
      else if \<not> is_dir disk (dirname p) then Inl (Error ''ENOENT'')
      else Inr (AList.update p (File (written K content)) disk))"

definition unlink :: "fs \<Rightarrow> string \<Rightarrow> error + fs" where
  "unlink disk p =
     (case map_of disk p of
        Some (File t) \<Rightarrow> Inr (AList.delete p disk)
      | Some Directory \<Rightarrow> Inl (Error ''EISDIR'')
      | None \<Rightarrow> Inl (Error (if is_dir disk p then ''EISDIR'' else ''ENOENT'')))"

definition readdir :: "fs \<Rightarrow> string \<Rightarrow> error + string list" where
  "readdir disk d =
     (if is_dir disk d then Inr (map basename (filter (\<lambda>p. dirname p = d) (map fst disk)))
      else Inl (Error (if exists disk d then ''ENOTDIR'' else ''ENOENT'')))"

lemma dirname_shorter:
  "d \<noteq> ''/'' \<Longrightarrow> d \<noteq> ''.'' \<Longrightarrow>
     (if dirname d = ''.'' then 0 else Suc (length (dirname d))) < Suc (length d)"
proof -
  assume d: "d \<noteq> ''/''" "d \<noteq> ''.''"
  show ?thesis
  proof (cases "CHR ''/'' \<in> set d")
    case False
    then show ?thesis by (simp add: dirname_def)
  next
    case True
    let ?r = "dropWhile (\<lambda>c. c \<noteq> CHR ''/'') (rev d)"
    have l: "length ?r \<le> length d" using length_dropWhile_le [of _ "rev d"] by simp
    have ne: "?r \<noteq> []" using True by simp
    show ?thesis
    proof (cases "drop 1 ?r = []")
      case True
      then have "length ?r = 1" using ne by (cases ?r) auto
      have "length d \<noteq> 1"
      proof
        assume "length d = 1"
        then obtain c where "d = [c]" by (cases d) auto
        with \<open>CHR ''/'' \<in> set d\<close> d show False by simp
      qed
      moreover have "length d \<noteq> 0" using \<open>CHR ''/'' \<in> set d\<close> by auto
      ultimately have "2 \<le> length d" by arith
      with True \<open>CHR ''/'' \<in> set d\<close> show ?thesis by (simp add: dirname_def Let_def)
    next
      case False
      have "length (drop 1 ?r) < length d" using l ne by (cases ?r) auto
      with False l \<open>CHR ''/'' \<in> set d\<close> show ?thesis by (simp add: dirname_def Let_def)
    qed
  qed
qed

text \<open>\<open>mkdirp(d)\<close>: the directory and every missing ancestor.\<close>

function mkdirp :: "fs \<Rightarrow> string \<Rightarrow> error + fs" where
  "mkdirp disk d =
     (if is_dir disk d then Inr disk
      else if exists disk d then Inl (Error ''EEXIST'')
      else (case mkdirp disk (dirname d) of
              Inl e \<Rightarrow> Inl e
            | Inr disk' \<Rightarrow> Inr (AList.update d Directory disk')))"
  by pat_completeness auto
termination
proof (relation "measure (\<lambda>(disk, d). if d = ''.'' then 0 else Suc (length d))", goal_cases)
  case 1
  then show ?case by simp
next
  case (2 disk d)
  then have "d \<noteq> ''/''" "d \<noteq> ''.''" by (auto simp: is_dir_def)
  from dirname_shorter [OF this] 2 show ?case by (auto simp: is_dir_def)
qed

text \<open>
  \<open>Cache.read(id, source)\<close>. The checksum \<open>crypto.createHash('md5').update(source)
  .digest('hex')\<close> is the parameter \<open>md5\<close>. The result is \<open>None\<close> for \<open>undefined\<close>. The file
  is read with \<open>this.encoding\<close>.
\<close>

definition Cache_read ::
  "codec \<Rightarrow> cache \<Rightarrow> (string \<Rightarrow> string) \<Rightarrow> fs \<Rightarrow> string \<Rightarrow> string
     \<Rightarrow> error + data option" where
  "Cache_read K c md5 disk id' source =
     (let checksum = md5 source;
          cacheName = replace_RE_EXT (\<lambda>ext. ''-'' @ checksum @ ext) id';
          fpath = path_join (dest c) cacheName
      in if exists disk fpath then
           (case readFile K disk fpath (encoding c) of
              Inl e \<Rightarrow> Inl e
            | Inr t \<Rightarrow> Inr (Some t))
         else Inr None)"

text \<open>The loop of \<open>Cache.remove\<close> over the entries \<open>readdir\<close> returned.\<close>

fun remove_entries :: "fs \<Rightarrow> string \<Rightarrow> string \<Rightarrow> string list \<Rightarrow> error + fs" where
  "remove_entries disk d fname [] = Inr disk"
| "remove_entries disk d fname (entry # entries) =
     (if strip_checksum entry = fname then
        (case unlink disk (path_join d entry) of
           Inl e \<Rightarrow> Inl e
         | Inr disk' \<Rightarrow> remove_entries disk' d fname entries)
      else remove_entries disk d fname entries)"

text \<open>\<open>Cache.remove(id)\<close>\<close>

definition Cache_remove :: "cache \<Rightarrow> fs \<Rightarrow> string \<Rightarrow> error + fs" where
  "Cache_remove c disk id' =
     (let fname = basename id';
          d = path_join (dest c) (dirname id')
      in if \<not> exists disk d then Inr disk
         else (case readdir disk d of
                 Inl e \<Rightarrow> Inl e
               | Inr entries \<Rightarrow> remove_entries disk d fname entries))"

text \<open>\<open>Cache.write(id, source, content)\<close>; the file is written with no encoding given.\<close>

definition Cache_write ::
  "codec \<Rightarrow> cache \<Rightarrow> (string \<Rightarrow> string) \<Rightarrow> fs \<Rightarrow> string \<Rightarrow> string \<Rightarrow> data
     \<Rightarrow> error + fs" where
  "Cache_write K c md5 disk id' source content =
     (let cacheId = replace_RE_EXT (\<lambda>ext. ''-'' @ md5 source @ ext) id';
          fpath = path_join (dest c) cacheId
      in case Cache_remove c disk id' of
           Inl e \<Rightarrow> Inl e
         | Inr disk1 \<Rightarrow>
             (case mkdirp disk1 (dirname fpath) of
                Inl e \<Rightarrow> Inl e
              | Inr disk2 \<Rightarrow> writeFile K disk2 fpath content))"

section \<open>The bundle engine (lib/compileAll.js)\<close>

text \<open>
  The aggregate is the body of an UglifyJS toplevel: a list of statements.
  \<open>define(id, dependencies, factory)\<close> of lib/define.js wraps a module as one
  \<open>define(...)\<close> call, kept here as \<open>Define id dependencies factory\<close>; \<open>Statement\<close> is
  any other statement, such as those of the loader a caller passes in.
  \<open>UglifyJS.parse(code, { toplevel: t })\<close> appends the statements of \<open>code\<close> to the body
  of \<open>t\<close>, in place, and returns \<open>t\<close>; with no \<open>t\<close> it returns a new toplevel.
\<close>

datatype stmt = Define string "string list" string | Statement string

text \<open>
  What \<open>_bundle\<close> calls outside lib/compileAll.js: \<open>parseId\<close> (lib/parseId.js),
  \<open>findComponent\<close> (lib/findComponent.js, \<open>None\<close> for a falsy result), \<open>readFile\<close> (lib/fs.js),
  \<open>matchRequire.findAll\<close>, and whether \<open>UglifyJS.parse\<close> accepts the wrapped module.
\<close>

record env =
  parseId :: "string \<Rightarrow> module_t"
  findComponent :: "string \<Rightarrow> string list \<Rightarrow> string option"
  read_source :: "string \<Rightarrow> error + string"
  findAll :: "string \<Rightarrow> string list"
  parses :: "string \<Rightarrow> string list \<Rightarrow> string \<Rightarrow> bool"

text \<open>
  The variables one invocation of \<open>_bundle\<close> closes over and never assigns: \<open>paths\<close>,
  \<open>root\<close> and \<open>dependenciesMap\<close> (\<open>None\<close> when not passed).
\<close>

record closure =
  paths :: "string list"
  root :: string
  dependenciesMap :: "objmap option"

text \<open>
  The objects all invocations of one top-level \<open>_bundle\<close> share by reference: \<open>ids\<close>,
  \<open>route\<close>, the toplevel (\<open>None\<close> while undefined), the sink \<open>requiredMap\<close>, and the store
  holding the nodes of the DependenciesMap and the copies made for the sink. A nested
  \<open>_bundle\<close> receives the toplevel object of its caller, which is defined by then, and
  \<open>UglifyJS.parse\<close> extends it in place: the caller's variable sees every statement the
  nested call adds.
\<close>

record bundle_state =
  ids :: "string list"
  route :: "string list"
  toplevel :: "stmt list option"
  requiredMap :: "objmap option"
  store :: heap

definition body :: "stmt list option \<Rightarrow> stmt list" where
  "body t = (case t of None \<Rightarrow> [] | Some b \<Rightarrow> b)"

text \<open>
  \<open>path.join(path.dirname(mod.id), dep)\<close> for a relative specifier: leading \<open>./\<close> and
  \<open>../\<close> segments of \<open>dep\<close> are resolved against the directory.
\<close>

function join_relative :: "string \<Rightarrow> string \<Rightarrow> string" where
  "join_relative d dep =
     (if starts_with ''./'' dep then join_relative d (drop 2 dep)
      else if starts_with ''../'' dep then join_relative (dirname d) (drop 3 dep)
      else path_join d dep)"
  by pat_completeness auto
termination
proof (relation "measure (\<lambda>(d, dep). length dep)", goal_cases)
  case 1
  then show ?case by simp
next
  case (2 d dep)
  then have "dep \<noteq> []" by (auto simp: starts_with_def)
  then show ?case by simp
next
  case (3 d dep)
  then have "dep \<noteq> []" by (auto simp: starts_with_def)
  then show ?case by simp
qed

text \<open>
  \<open>name.split('/').reduce(function(result) { return path.resolve(result, '..') }, dir)\<close>:
  one step up for every segment of the package name.
\<close>

definition pkgBase :: "string \<Rightarrow> string \<Rightarrow> string" where
  "pkgBase name d = (dirname ^^ Suc (length (filter (\<lambda>c. c = CHR ''/'') name))) d"

text \<open>
  The loop of \<open>append\<close> that drops the specifiers ending in \<open>heredoc\<close>, from the last
  index down.
\<close>

fun drop_heredoc :: "nat \<Rightarrow> string list \<Rightarrow> string list" where
  "drop_heredoc 0 deps = deps"
| "drop_heredoc (Suc i) deps =
     drop_heredoc i (if ends_with ''heredoc'' (deps ! i) then take i deps @ drop (Suc i) deps
                     else deps)"

text \<open>
  The part of \<open>append\<close> between \<open>ids.unshift(id)\<close> and \<open>UglifyJS.parse\<close>: the module
  parsed from the id, the specifiers left after the \<open>heredoc\<close> filter and the source
  text, or the error thrown. An empty \<open>factory\<close> is falsy, like a missing one; with no
  search path at all, \<open>paths[0].endsWith\<close> is a call on \<open>undefined\<close>.
\<close>

definition load ::
  "env \<Rightarrow> closure \<Rightarrow> string \<Rightarrow> string list option \<Rightarrow> string option
     \<Rightarrow> error + (module_t \<times> string list \<times> string)" where
  "load E C id' dependencies' factory =
     (case paths C of
        [] \<Rightarrow> Inl TypeError
      | first # _ \<Rightarrow>
          (let m = parseId E id';
               fpath = (if ends_with ''node_modules'' first
                        then findComponent E (mod_name m @ ''/'' @ mod_entry m @ ''.js'') (paths C)
                        else findComponent E (mod_entry m @ ''.js'') (paths C));
               given = (case factory of None \<Rightarrow> None | Some t \<Rightarrow> if t = [] then None else Some t)
           in case (case given of
                      Some t \<Rightarrow> Inr t
                    | None \<Rightarrow>
                        (case fpath of
                           None \<Rightarrow> Inl (Error (''Cannot find source of '' @ id'))
                         | Some p \<Rightarrow> read_source E p)) of
                Inl e \<Rightarrow> Inl e
              | Inr code \<Rightarrow>
                  (let deps0 = (case dependencies' of Some ds \<Rightarrow> ds | None \<Rightarrow> findAll E code);
                       deps = drop_heredoc (length deps0) deps0
                   in if parses E id' deps code then Inr (m, deps, code)
                      else Inl (Error ''SyntaxError''))))"

text \<open>
  The three tests of \<open>satisfy\<close> on one specifier, in the order of the source: a relative
  path, a sibling found on the search path, a package when a DependenciesMap is
  configured; otherwise the specifier is left alone.
\<close>

datatype target = Relative string | Sibling string | Package string | Unresolved

definition classify :: "env \<Rightarrow> closure \<Rightarrow> string \<Rightarrow> module_t \<Rightarrow> string \<Rightarrow> target" where
  "classify E C id' m dep =
     (if starts_with ''.'' dep then Relative (join_relative (dirname id') dep)
      else if findComponent E (dep @ ''.js'') (paths C) \<noteq> None
      then Sibling (mod_name m @ ''/'' @ mod_version m @ ''/'' @ dep)
      else if dependenciesMap C \<noteq> None then Package dep
      else Unresolved)"

text \<open>
  The part of \<open>appendModule\<close> before the nested \<open>_bundle\<close>: the lookup by
  \<open>findModule\<close>, then the id and the search path of the package. The result is the
  closure of the nested invocation, its \<open>main\<close> and the state after the lookup.
\<close>

definition locate ::
  "closure \<Rightarrow> string \<Rightarrow> bundle_state \<Rightarrow> error + (closure \<times> string \<times> bundle_state)" where
  "locate C name st =
     (case dependenciesMap C of
        None \<Rightarrow> Inl TypeError
      | Some dm \<Rightarrow>
          (case findModule (store st) (route st) dm (requiredMap st) of
             Inl e \<Rightarrow> Inl e
           | Inr (data, h', rm') \<Rightarrow>
               (case data of
                  Ref a \<Rightarrow>
                    if a < length h' then
                      Inr (C\<lparr>paths := [pkgBase name (dir (h' ! a))]\<rparr>,
                           path_join (path_join name (version (h' ! a))) (strip_js (main (h' ! a))),
                           st\<lparr>store := h', requiredMap := rm'\<rparr>)
                    else Inl Dangling
                | _ \<Rightarrow> Inl (Error (''Cannot find module '' @ name)))))"

text \<open>
  \<open>append\<close>, \<open>satisfy\<close>, \<open>appendModule\<close> and \<open>_bundle\<close> (here \<open>bundle'\<close>). The recursion
  has no bound of its own (a module tree may be as deep as the disk allows), so the
  functions take fuel, spent by every \<open>append\<close> that passes the \<open>ids\<close> check: the result
  is \<open>None\<close> when the fuel runs out, \<open>Some (Inl e)\<close> when \<open>e\<close> is thrown, and
  \<open>Some (Inr st)\<close> with the state left behind when the call returns.
\<close>

function append ::
    "nat \<Rightarrow> env \<Rightarrow> closure \<Rightarrow> string \<Rightarrow> string list option \<Rightarrow> string option
       \<Rightarrow> bundle_state \<Rightarrow> (error + bundle_state) option"
  and satisfy ::
    "nat \<Rightarrow> env \<Rightarrow> closure \<Rightarrow> string \<Rightarrow> module_t \<Rightarrow> string list
       \<Rightarrow> bundle_state \<Rightarrow> (error + bundle_state) option"
  and appendModule ::
    "nat \<Rightarrow> env \<Rightarrow> closure \<Rightarrow> string \<Rightarrow> bundle_state \<Rightarrow> (error + bundle_state) option"
  and bundle' ::
    "nat \<Rightarrow> env \<Rightarrow> closure \<Rightarrow> string \<Rightarrow> string list option \<Rightarrow> string option
       \<Rightarrow> bundle_state \<Rightarrow> (error + bundle_state) option"
where
  "append n E C id' dependencies' factory st =
     (if id' \<in> set (ids st) then Some (Inr st)
      else
        (case n of
           0 \<Rightarrow> None
         | Suc k \<Rightarrow>
             (case load E C id' dependencies' factory of
                Inl e \<Rightarrow> Some (Inl e)
              | Inr (m, deps, code) \<Rightarrow>
                  satisfy k E C id' m deps
                    (st\<lparr>ids := id' # ids st,
                        toplevel := Some (body (toplevel st) @ [Define id' deps code])\<rparr>))))"
| "satisfy n E C id' m [] st = Some (Inr st)"
| "satisfy n E C id' m (dep # rest) st =
     (case (case classify E C id' m dep of
              Relative file \<Rightarrow> append n E C file None None st
            | Sibling file \<Rightarrow> append n E C file None None st
            | Package name \<Rightarrow>
                (case appendModule n E C name (st\<lparr>route := route st @ [name]\<rparr>) of
                   Some (Inr st') \<Rightarrow> Some (Inr (st'\<lparr>route := butlast (route st')\<rparr>))
                 | r \<Rightarrow> r)
            | Unresolved \<Rightarrow> Some (Inr st)) of
        Some (Inr st') \<Rightarrow> satisfy n E C id' m rest st'
      | r \<Rightarrow> r)"
| "appendModule n E C name st =
     (case locate C name st of
        Inl e \<Rightarrow> Some (Inl e)
      | Inr (C', main', st') \<Rightarrow> bundle' n E C' main' None None st')"
| "bundle' n E C main' dependencies' factory st = append n E C main' dependencies' factory st"
  by pat_completeness auto
termination
  by (relation "inv_image (less_than <*lex*> less_than)
        (\<lambda>x. case x of
           Inl (Inl (n, E, C, i, d, f, st)) \<Rightarrow> (n, 0)
         | Inl (Inr (n, E, C, i, m, deps, st)) \<Rightarrow> (n, 3 + length deps)
         | Inr (Inl (n, E, C, name, st)) \<Rightarrow> (n, 2)
         | Inr (Inr (n, E, C, i, d, f, st)) \<Rightarrow> (n, 1))")
     auto

section \<open>Notions used in the statements\<close>

text \<open>
  The number of objects in a JSON text: what \<open>JSON.parse\<close> allocates for it.
\<close>

fun nodes :: "json \<Rightarrow> nat" and nodes_props :: "(string \<times> json) list \<Rightarrow> nat" where
  "nodes (JObj v d m kids) = Suc (nodes_props kids)"
| "nodes_props [] = 0"
| "nodes_props ((k, j) # r) = nodes j + nodes_props r"

text \<open>
  \<open>reach h a b\<close>: in the store \<open>h\<close>, the node \<open>b\<close> is \<open>a\<close> itself or is reached from \<open>a\<close> through
  \<open>dependencies\<close> references.
\<close>

inductive reach :: "heap \<Rightarrow> addr \<Rightarrow> addr \<Rightarrow> bool" for h where
  reach_self: "reach h a a"
| reach_step: "a < length h \<Longrightarrow> (k, c) \<in> set (dependencies (h ! a)) \<Longrightarrow> reach h c b
     \<Longrightarrow> reach h a b"

text \<open>
  \<open>in_range lo h ds\<close>: every reference of the dictionary \<open>ds\<close> points at a node of \<open>h\<close>
  allocated at \<open>lo\<close> or later. \<open>fresh_from lo h\<close>: so do all references held by the nodes
  allocated at \<open>lo\<close> or later.
\<close>

definition in_range :: "nat \<Rightarrow> heap \<Rightarrow> objmap \<Rightarrow> bool" where
  "in_range lo h ds = (\<forall>(k, x) \<in> set ds. lo \<le> x \<and> x < length h)"

definition fresh_from :: "nat \<Rightarrow> heap \<Rightarrow> bool" where
  "fresh_from lo h = (\<forall>b. lo \<le> b \<longrightarrow> b < length h \<longrightarrow> in_range lo h (dependencies (h ! b)))"

text \<open>
  The states the scheduler can be in: from the state at load time, any number of calls of
  \<open>Cache.precompile\<close> and of turns of the event loop, each turn in whatever environment
  it finds.
\<close>

inductive reachable :: "scheduler \<Rightarrow> bool" where
  start: "reachable initial"
| call: "reachable s \<Longrightarrow> Cache_precompile c m modules s = (r, s') \<Longrightarrow> reachable s'"
| run: "reachable s \<Longrightarrow> run_next env s = Some s' \<Longrightarrow> reachable s'"

text \<open>
  The links not yet run carry pairwise different identities, each of them in the
  in-flight list.
\<close>

definition queue_inv :: "scheduler \<Rightarrow> bool" where
  "queue_inv s =
     (distinct (map (\<lambda>j. identity (job_mod j)) (pending s)) \<and>
      (\<forall>j \<in> set (pending s). identity (job_mod j) \<in> set (precompiling s)))"

text \<open>
  A relative, normalised path: it does not start at the root or with a \<open>.\<close> segment.
\<close>

definition relative_path :: "string \<Rightarrow> bool" where
  "relative_path p = (\<not> starts_with ''/'' p \<and> \<not> starts_with ''./'' p)"

text \<open>Every entry of the table lies in a directory that exists.\<close>

definition wf_fs :: "fs \<Rightarrow> bool" where
  "wf_fs disk = (\<forall>p \<in> set (map fst disk). is_dir disk (dirname p))"

text \<open>
  \<open>grows st st'\<close>: from \<open>st\<close> to \<open>st'\<close> some wrapped definitions were added at the end of
  the aggregate and their ids, newest first, at the front of \<open>ids\<close>.
  \<open>appended i st st'\<close>: the first of them is the definition of \<open>i\<close>.
\<close>

definition mk_def :: "string \<times> string list \<times> string \<Rightarrow> stmt" where
  "mk_def x = (case x of (i, deps, code) \<Rightarrow> Define i deps code)"

definition grows :: "bundle_state \<Rightarrow> bundle_state \<Rightarrow> bool" where
  "grows st st' =
     (\<exists>defs. body (toplevel st') = body (toplevel st) @ map mk_def defs
        \<and> ids st' = rev (map fst defs) @ ids st
        \<and> set (map fst defs) \<inter> set (ids st) = {} \<and> distinct (map fst defs))"

definition appended :: "string \<Rightarrow> bundle_state \<Rightarrow> bundle_state \<Rightarrow> bool" where
  "appended i st st' =
     (\<exists>deps code defs. body (toplevel st') = body (toplevel st) @ Define i deps code # map mk_def defs
        \<and> ids st' = rev (map fst defs) @ i # ids st \<and> i \<notin> set (ids st)
        \<and> set (map fst defs) \<inter> set (i # ids st) = {} \<and> distinct (map fst defs))"

text \<open>
  A chain of modules of one package: each module loads, the last has no dependency, and
  every other has exactly one, which \<open>satisfy\<close> resolves (as a relative path or as a
  sibling) to the next module of the chain. The first module is loaded with the
  \<open>dependencies\<close> and \<open>factory\<close> options of the call, the others with none.
\<close>

fun chain ::
  "env \<Rightarrow> closure \<Rightarrow> string list option \<Rightarrow> string option
     \<Rightarrow> (string \<times> string list \<times> string) list \<Rightarrow> bool" where
  "chain E C d f [] = False"
| "chain E C d f [(i, deps, code)] =
     (load E C i d f = Inr (parseId E i, deps, code) \<and> deps = [])"
| "chain E C d f ((i, deps, code) # (j, r) # rest) =
     (load E C i d f = Inr (parseId E i, deps, code)
      \<and> (case deps of
            [dep] \<Rightarrow> classify E C i (parseId E i) dep = Relative j
                     \<or> classify E C i (parseId E i) dep = Sibling j
          | _ \<Rightarrow> False)
      \<and> chain E C None None ((j, r) # rest))"

text \<open>
  A call of \<open>append\<close>: the fuel, the closure, the id, the \<open>dependencies\<close> and \<open>factory\<close>
  options, and the state it starts in.

  \<open>through E p c\<close>: the call \<open>p\<close>, of a module that is not in \<open>ids\<close> yet, makes the call
  \<open>c\<close> while it satisfies its dependencies. The module of \<open>p\<close> loads with the
  specifiers \<open>pre @ dep # post\<close>; its definition is merged; \<open>satisfy\<close> returns from the
  specifiers \<open>pre\<close> and leaves the state \<open>s\<close>; then \<open>dep\<close> is either a relative path or a
  sibling, and \<open>c\<close> appends it in the same closure and in the state \<open>s\<close>, or a package,
  and \<open>c\<close> appends its main module in the closure and the state that \<open>appendModule\<close>
  gets from \<open>findModule\<close> for the route extended by the name of the package. The
  transitive closure of \<open>through E\<close> relates a call to the calls made below it at any
  depth.
\<close>

type_synonym call =
  "nat \<times> closure \<times> string \<times> string list option \<times> string option \<times> bundle_state"

inductive through :: "env \<Rightarrow> call \<Rightarrow> call \<Rightarrow> bool" for E where
  by_path:
    "i \<notin> set (ids st) \<Longrightarrow> load E C i d f = Inr (m, pre @ dep # post, code) \<Longrightarrow>
     satisfy k E C i m pre
       (st\<lparr>ids := i # ids st,
           toplevel := Some (body (toplevel st) @ [Define i (pre @ dep # post) code])\<rparr>)
       = Some (Inr s) \<Longrightarrow>
     classify E C i m dep = Relative j \<or> classify E C i m dep = Sibling j \<Longrightarrow>
     through E (Suc k, C, i, d, f, st) (k, C, j, None, None, s)"
| by_package:
    "i \<notin> set (ids st) \<Longrightarrow> load E C i d f = Inr (m, pre @ dep # post, code) \<Longrightarrow>
     satisfy k E C i m pre
       (st\<lparr>ids := i # ids st,
           toplevel := Some (body (toplevel st) @ [Define i (pre @ dep # post) code])\<rparr>)
       = Some (Inr s) \<Longrightarrow>
     classify E C i m dep = Package name \<Longrightarrow>
     locate C name (s\<lparr>route := route s @ [name]\<rparr>) = Inr (C', j, s') \<Longrightarrow>
     through E (Suc k, C, i, d, f, st) (k, C', j, None, None, s')"

section \<open>Examples\<close>

subsection \<open>Dependency trees\<close>

definition pkg :: "string \<Rightarrow> objmap \<Rightarrow> node" where
  "pkg v ds =
     \<lparr>version = v, dir = ''/proj/node_modules'', main = ''index.js'', dependencies = ds\<rparr>"

text \<open>
  A flat install: \<open>ez-editor\<close>, \<open>yen\<close> and \<open>zepto\<close> all hoisted to the top level, none
  with nested dependencies.
\<close>

definition flat_heap :: heap where
  "flat_heap = [pkg ''0.2.4'' [], pkg ''1.2.4'' [], pkg ''1.1.6'' []]"

definition flat_map :: objmap where
  "flat_map = [(''ez-editor'', 0), (''yen'', 1), (''zepto'', 2)]"

text \<open>A nested install: \<open>yen\<close> only below \<open>ez-editor\<close>.\<close>

definition nested_heap :: heap where
  "nested_heap = [pkg ''1.2.4'' [], pkg ''0.2.4'' [(''yen'', 0)]]"

definition nested_map :: objmap where
  "nested_map = [(''ez-editor'', 1)]"

subsection \<open>Runs of the scheduler\<close>

text \<open>
  Two modules with their main entries, the \<open>system.modules\<close> table naming them, and a
  cache writing to \<open>/proj/public\<close>.
\<close>

definition yen :: module_t where
  "yen = \<lparr>mod_name = ''yen'', mod_version = ''1.2.4'', mod_entry = ''index.js''\<rparr>"

definition zepto :: module_t where
  "zepto = \<lparr>mod_name = ''zepto'', mod_version = ''1.1.6'', mod_entry = ''index.js''\<rparr>"

definition example_modules :: system_modules where
  "example_modules =
     [(''yen'', [(''1.2.4'', Some ''./index.js'')]), (''zepto'', [(''1.1.6'', None)])]"

definition public_cache :: cache where
  "public_cache = \<lparr>dest = ''/proj/public'', encoding = Some ''utf8''\<rparr>"

text \<open>
  Caches writing to the same folder, created with no encoding and with the encoding
  \<open>hex\<close>.
\<close>

definition raw_cache :: cache where
  "raw_cache = \<lparr>dest = ''/proj/public'', encoding = None\<rparr>"

definition hex_cache :: cache where
  "hex_cache = \<lparr>dest = ''/proj/public'', encoding = Some ''hex''\<rparr>"

text \<open>
  An environment in which both packages are installed, neither is a symbolic link, and
  the worker compiling \<open>yen\<close> exits with code 1 while any other worker exits with 0.
\<close>

definition yen_fails :: job_env where
  "yen_fails =
     \<lparr>module_path = (\<lambda>m. ''/proj/node_modules/'' @ mod_name m @ ''/index.js''),
      exists_path = (\<lambda>p. True),
      is_symlink = (\<lambda>p. Some False),
      exit_code = (\<lambda>cmd args. if ''yen/1.2.4/index'' \<in> set args then 1 else 0),
      argv0 = ''node'',
      script = ''/oceanify/bin/compileModule.js''\<rparr>"

text \<open>
  The command and arguments of the worker that compiles the module of the given id.
\<close>

definition worker_args :: "string \<Rightarrow> string \<times> string list" where
  "worker_args ident =
     (''node'', [''/oceanify/bin/compileModule.js'', ''--id'', ident, ''--dest'', ''/proj/public'',
       ''--paths'', ''/proj/node_modules'', ''--source-root'', ''/''])"

text \<open>
  The states the example runs go through.
\<close>

definition yen_enqueued :: scheduler where
  "yen_enqueued =
     \<lparr>precompiling = [''yen/1.2.4''], settled = Fulfilled,
      pending = [\<lparr>job_mod = yen, job_dest = ''/proj/public''\<rparr>],
      spawned = [], console = []\<rparr>"

definition yen_failed :: scheduler where
  "yen_failed =
     \<lparr>precompiling = [''yen/1.2.4''], settled = Rejected (Exit 1), pending = [],
      spawned = [worker_args ''yen/1.2.4/index''], console = []\<rparr>"

definition both_enqueued :: scheduler where
  "both_enqueued =
     \<lparr>precompiling = [''yen/1.2.4'', ''zepto/1.1.6''], settled = Fulfilled,
      pending = [\<lparr>job_mod = yen, job_dest = ''/proj/public''\<rparr>,
                 \<lparr>job_mod = zepto, job_dest = ''/proj/public''\<rparr>],
      spawned = [], console = []\<rparr>"

definition zepto_skipped :: scheduler where
  "zepto_skipped =
     \<lparr>precompiling = [''yen/1.2.4'', ''zepto/1.1.6''], settled = Fulfilled, pending = [],
      spawned = [worker_args ''yen/1.2.4/index''],
      console = [''Failed to cache zepto@1.1.6'', ''err.stack'']\<rparr>"

subsection \<open>Disks\<close>

text \<open>
  Conversions that agree with Node's on ASCII text, for the encodings \<open>utf8\<close> and
  \<open>hex\<close>: the UTF-8 bytes of such a text are its characters, and \<open>hex\<close> gives two
  hexadecimal digits for each byte.
\<close>

definition hex_digit :: "nat \<Rightarrow> char" where
  "hex_digit n = ''0123456789abcdef'' ! n"

definition hex_text :: "bytes \<Rightarrow> string" where
  "hex_text b =
     concat (map (\<lambda>c. [hex_digit (of_char c div 16), hex_digit (of_char c mod 16)]) b)"

definition ascii_codec :: codec where
  "ascii_codec =
     \<lparr>utf8_bytes = (\<lambda>t. t),
      decoder = (\<lambda>e. if e = ''utf8'' \<or> e = ''utf-8'' then Some (\<lambda>b. b)
                     else if e = ''hex'' then Some hex_text
                     else None)\<rparr>"

text \<open>A checksum function that agrees with MD5 on the sources \<open>a\<close> and \<open>b\<close>.\<close>

definition md5_ab :: "string \<Rightarrow> string" where
  "md5_ab s =
     (if s = ''a'' then ''0cc175b9c0f1b6a831c399e269772661''
      else if s = ''b'' then ''92eb5ffee6ae2fec3ad71c777531578f''
      else ''d41d8cd98f00b204e9800998ecf8427e'')"

text \<open>
  The disk after \<open>yen/1.2.4/index.js\<close> was written for the source \<open>a\<close>, and after it was
  written again for the source \<open>b\<close>; the disk after \<open>theme.less\<close> was written for \<open>a\<close>, and
  after it was written again for \<open>b\<close>.
\<close>

definition disk_a :: fs where
  "disk_a =
     [(''/proj'', Directory), (''/proj/public'', Directory), (''/proj/public/yen'', Directory),
      (''/proj/public/yen/1.2.4'', Directory),
      (''/proj/public/yen/1.2.4/index-0cc175b9c0f1b6a831c399e269772661.js'', File ''compiled a'')]"

definition disk_b :: fs where
  "disk_b =
     [(''/proj'', Directory), (''/proj/public'', Directory), (''/proj/public/yen'', Directory),
      (''/proj/public/yen/1.2.4'', Directory),
      (''/proj/public/yen/1.2.4/index-92eb5ffee6ae2fec3ad71c777531578f.js'', File ''compiled b'')]"

definition less_disk :: fs where
  "less_disk =
     [(''/proj'', Directory), (''/proj/public'', Directory),
      (''/proj/public/theme-0cc175b9c0f1b6a831c399e269772661.less'', File ''compiled a'')]"

definition less_disk2 :: fs where
  "less_disk2 =
     [(''/proj'', Directory), (''/proj/public'', Directory),
      (''/proj/public/theme-0cc175b9c0f1b6a831c399e269772661.less'', File ''compiled a''),
      (''/proj/public/theme-92eb5ffee6ae2fec3ad71c777531578f.less'', File ''compiled b'')]"

subsection \<open>Bundles\<close>

text \<open>
  A stand-in for lib/parseId.js on ids of the form \<open>name/version/entry\<close> with a name of
  one segment.
\<close>

definition parse_plain_id :: "string \<Rightarrow> module_t" where
  "parse_plain_id s =
     (let n = takeWhile (\<lambda>c. c \<noteq> CHR ''/'') s;
          r = drop (Suc (length n)) s;
          v = takeWhile (\<lambda>c. c \<noteq> CHR ''/'') r
      in \<lparr>mod_name = n, mod_version = v, mod_entry = drop (Suc (length v)) r\<rparr>)"

text \<open>
  The package \<open>app\<close> 1.0.0 with the components \<open>a\<close>, \<open>b\<close>, \<open>c\<close> and \<open>main\<close> under
  \<open>/proj/components\<close>: \<open>a\<close> requires \<open>./b\<close>, \<open>b\<close> requires \<open>./c\<close>, \<open>c\<close> requires
  nothing, \<open>main\<close> requires the package \<open>yen\<close>, installed under \<open>/proj/node_modules\<close>.
\<close>

definition app_env :: env where
  "app_env =
     \<lparr>parseId = parse_plain_id,
      findComponent = (\<lambda>name ps.
         if ps = [''/proj/components''] \<and> name \<in> set [''a.js'', ''b.js'', ''c.js'', ''main.js'']
         then Some (''/proj/components/'' @ name)
         else if ps = [''/proj/node_modules''] \<and> name = ''yen/index.js''
         then Some ''/proj/node_modules/yen/index.js''
         else None),
      read_source = (\<lambda>p.
         if p = ''/proj/components/a.js'' then Inr ''require('./b')''
         else if p = ''/proj/components/b.js'' then Inr ''require('./c')''
         else if p = ''/proj/components/c.js'' then Inr ''exports.c = 1''
         else if p = ''/proj/components/main.js'' then Inr ''require('yen')''
         else if p = ''/proj/node_modules/yen/index.js'' then Inr ''module.exports = yen''
         else Inl (Error ''ENOENT'')),
      findAll = (\<lambda>code.
         if code = ''require('./b')'' then [''./b'']
         else if code = ''require('./c')'' then [''./c'']
         else if code = ''require('yen')'' then [''yen'']
         else []),
      parses = (\<lambda>i deps code. True)\<rparr>"

text \<open>
  The closure of a bundle of components, without and with a DependenciesMap that holds
  \<open>yen\<close>, and the states a top-level \<open>_bundle\<close> starts from.
\<close>

definition components :: closure where
  "components = \<lparr>paths = [''/proj/components''], root = ''/proj'', dependenciesMap = None\<rparr>"

definition components_with_map :: closure where
  "components_with_map =
     \<lparr>paths = [''/proj/components''], root = ''/proj'', dependenciesMap = Some [(''yen'', 0)]\<rparr>"

definition yen_node :: node where
  "yen_node = \<lparr>version = ''1.2.4'', dir = ''/proj/node_modules/yen'', main = ''index.js'',
               dependencies = []\<rparr>"

definition fresh_state :: bundle_state where
  "fresh_state = \<lparr>ids = [], route = [], toplevel = None, requiredMap = None, store = []\<rparr>"

definition fresh_state_with_map :: bundle_state where
  "fresh_state_with_map =
     \<lparr>ids = [], route = [], toplevel = None, requiredMap = Some [], store = [yen_node]\<rparr>"

text \<open>
  The chain \<open>a\<close>, \<open>b\<close>, \<open>c\<close>, and the states the bundles of \<open>a\<close> and of \<open>main\<close> end in.
\<close>

definition abc :: "(string \<times> string list \<times> string) list" where
  "abc = [(''app/1.0.0/a'', [''./b''], ''require('./b')''),
          (''app/1.0.0/b'', [''./c''], ''require('./c')''),
          (''app/1.0.0/c'', [], ''exports.c = 1'')]"

definition abc_bundled :: bundle_state where
  "abc_bundled =
     \<lparr>ids = [''app/1.0.0/c'', ''app/1.0.0/b'', ''app/1.0.0/a''], route = [],
      toplevel = Some [Define ''app/1.0.0/a'' [''./b''] ''require('./b')'',
                       Define ''app/1.0.0/b'' [''./c''] ''require('./c')'',
                       Define ''app/1.0.0/c'' [] ''exports.c = 1''],
      requiredMap = None, store = []\<rparr>"

definition main_bundled :: bundle_state where
  "main_bundled =
     \<lparr>ids = [''yen/1.2.4/index'', ''app/1.0.0/main''], route = [],
      toplevel = Some [Define ''app/1.0.0/main'' [''yen''] ''require('yen')'',
                       Define ''yen/1.2.4/index'' [] ''module.exports = yen''],
      requiredMap = Some [(''yen'', 1)], store = [yen_node, yen_node]\<rparr>"

text \<open>
  A site whose component \<open>page\<close> requires the component \<open>./header\<close> and the package
  \<open>ez-editor\<close>, whose main module requires the package \<open>yen\<close>. Both packages are
  installed at the top level of \<open>/proj/node_modules\<close>, and the DependenciesMap is flat.
\<close>

definition site_env :: env where
  "site_env =
     \<lparr>parseId = parse_plain_id,
      findComponent = (\<lambda>name ps.
         if ps = [''/proj/components''] \<and> name \<in> set [''page.js'', ''header.js'']
         then Some (''/proj/components/'' @ name)
         else if ps = [''/proj/node_modules'']
                 \<and> name \<in> set [''ez-editor/index.js'', ''yen/index.js'']
         then Some (''/proj/node_modules/'' @ name)
         else None),
      read_source = (\<lambda>p.
         if p = ''/proj/components/page.js'' then Inr ''require('./header'); require('ez-editor')''
         else if p = ''/proj/components/header.js'' then Inr ''exports.header = 1''
         else if p = ''/proj/node_modules/ez-editor/index.js'' then Inr ''require('yen')''
         else if p = ''/proj/node_modules/yen/index.js'' then Inr ''module.exports = yen''
         else Inl (Error ''ENOENT'')),
      findAll = (\<lambda>code.
         if code = ''require('./header'); require('ez-editor')'' then [''./header'', ''ez-editor'']
         else if code = ''require('yen')'' then [''yen'']
         else []),
      parses = (\<lambda>i deps code. True)\<rparr>"

definition ez_node :: node where
  "ez_node = \<lparr>version = ''0.2.4'', dir = ''/proj/node_modules/ez-editor'', main = ''index.js'',
              dependencies = []\<rparr>"

text \<open>
  The closure of the bundle of components and the closure \<open>appendModule\<close> makes for a
  package; the state the top-level \<open>_bundle\<close> starts from.
\<close>

definition site :: closure where
  "site = \<lparr>paths = [''/proj/components''], root = ''/proj'',
           dependenciesMap = Some [(''ez-editor'', 0), (''yen'', 1)]\<rparr>"

definition site_packages :: closure where
  "site_packages = \<lparr>paths = [''/proj/node_modules''], root = ''/proj'',
                    dependenciesMap = Some [(''ez-editor'', 0), (''yen'', 1)]\<rparr>"

definition site_start :: bundle_state where
  "site_start = \<lparr>ids = [], route = [], toplevel = None, requiredMap = None,
                  store = [ez_node, yen_node]\<rparr>"

text \<open>
  The four wrapped definitions, and the states of the bundle of \<open>page\<close>: when \<open>satisfy\<close>
  has returned from \<open>./header\<close>, when \<open>append\<close> is called for the main module of
  \<open>ez-editor\<close>, when it is called for the main module of \<open>yen\<close>, and at the end.
\<close>

definition page_def :: stmt where
  "page_def = Define ''app/1.0.0/page'' [''./header'', ''ez-editor'']
                ''require('./header'); require('ez-editor')''"

definition header_def :: stmt where
  "header_def = Define ''app/1.0.0/header'' [] ''exports.header = 1''"

definition editor_def :: stmt where
  "editor_def = Define ''ez-editor/0.2.4/index'' [''yen''] ''require('yen')''"

definition yen_def :: stmt where
  "yen_def = Define ''yen/1.2.4/index'' [] ''module.exports = yen''"

definition after_header :: bundle_state where
  "after_header =
     \<lparr>ids = [''app/1.0.0/header'', ''app/1.0.0/page''], route = [],
      toplevel = Some [page_def, header_def], requiredMap = None, store = [ez_node, yen_node]\<rparr>"

definition at_editor :: bundle_state where
  "at_editor =
     \<lparr>ids = [''app/1.0.0/header'', ''app/1.0.0/page''], route = [''ez-editor''],
      toplevel = Some [page_def, header_def], requiredMap = None, store = [ez_node, yen_node]\<rparr>"

definition editor_merged :: bundle_state where
  "editor_merged =
     \<lparr>ids = [''ez-editor/0.2.4/index'', ''app/1.0.0/header'', ''app/1.0.0/page''],
      route = [''ez-editor''],
      toplevel = Some [page_def, header_def, editor_def], requiredMap = None,
      store = [ez_node, yen_node]\<rparr>"

definition at_yen :: bundle_state where
  "at_yen =
     \<lparr>ids = [''ez-editor/0.2.4/index'', ''app/1.0.0/header'', ''app/1.0.0/page''],
      route = [''ez-editor'', ''yen''],
      toplevel = Some [page_def, header_def, editor_def], requiredMap = None,
      store = [ez_node, yen_node]\<rparr>"

definition site_bundled :: bundle_state where
  "site_bundled =
     \<lparr>ids = [''yen/1.2.4/index'', ''ez-editor/0.2.4/index'', ''app/1.0.0/header'',
             ''app/1.0.0/page''],
      route = [],
      toplevel = Some [page_def, header_def, editor_def, yen_def], requiredMap = None,
      store = [ez_node, yen_node]\<rparr>"

section \<open>Properties of findModule\<close>

declare findModule_loop.simps [simp del] findModule_spec.simps [simp del] mkdirp.simps [simp del]

declare append.simps [simp del] satisfy.simps(2) [simp del] appendModule.simps [simp del]

subsection \<open>Deep copies allocate fresh nodes\<close>

lemma parse_extends:
  "parse j h = (h', c) \<Longrightarrow> \<exists>ext. h' = h @ ext \<and> length ext = nodes j"
  "parse_props kids h = (h', ds) \<Longrightarrow> \<exists>ext. h' = h @ ext \<and> length ext = nodes_props kids"
proof (induction j h and kids h arbitrary: h' c and h' ds rule: parse_parse_props.induct)
  case (1 v d m kids h)
  then show ?case by (auto split: prod.splits)
next
  case (2 h)
  then show ?case by simp
next
  case (3 k j r h)
  then show ?case by (fastforce split: prod.splits)
qed

lemma stringify_extend:
  "stringify n h a = Some j \<Longrightarrow> stringify n (h @ ext) a = Some j"
  "stringify_props n h ds = Some js \<Longrightarrow> stringify_props n (h @ ext) ds = Some js"
proof (induction n h a and n h ds arbitrary: j and js rule: stringify_stringify_props.induct)
  case (1 h a)
  then show ?case by simp
next
  case (2 n h a)
  then show ?case by (auto simp: nth_append split: if_splits)
next
  case (3 n h)
  then show ?case by simp
next
  case (4 n h k c r)
  then show ?case by (auto split: option.splits)
qed

lemma stringify_mono:
  "stringify n h a = Some j \<Longrightarrow> n \<le> n' \<Longrightarrow> stringify n' h a = Some j"
  "stringify_props n h ds = Some js \<Longrightarrow> n \<le> n' \<Longrightarrow> stringify_props n' h ds = Some js"
proof (induction n h a and n h ds arbitrary: j n' and js n' rule: stringify_stringify_props.induct)
  case (1 h a)
  then show ?case by simp
next
  case (2 n h a)
  from 2(3) obtain m where m: "n' = Suc m" "n \<le> m" by (cases n') auto
  from 2(2) have a: "a < length h" by (simp split: if_splits)
  with 2(2) obtain js where js: "stringify_props n h (dependencies (h ! a)) = Some js"
    "j = JObj (version (h ! a)) (dir (h ! a)) (main (h ! a)) js" by auto
  have "stringify_props m h (dependencies (h ! a)) = Some js"
    using 2(1) [OF a js(1) m(2)] .
  then show ?case using a js(2) m(1) by simp
next
  case (3 n h)
  then show ?case by simp
next
  case (4 n h k c r)
  from 4(3) obtain j0 js0 where s: "stringify n h c = Some j0"
    "stringify_props n h r = Some js0" "js = (k, j0) # js0"
    by (auto split: option.splits)
  have "stringify n' h c = Some j0" using 4(1) [OF s(1) 4(4)] .
  moreover have "stringify_props n' h r = Some js0" using 4(2) [OF s(1) s(2) 4(4)] .
  ultimately show ?case using s(3) by simp
qed

lemma parse_stringify:
  "parse j h = (h', c) \<Longrightarrow> stringify (nodes j) h' c = Some j"
  "parse_props kids h = (h', ds) \<Longrightarrow> stringify_props (nodes_props kids) h' ds = Some kids"
proof (induction j h and kids h arbitrary: h' c and h' ds rule: parse_parse_props.induct)
  case (1 v d m kids h)
  then show ?case by (auto split: prod.splits simp: nth_append dest: stringify_extend(2))
next
  case (2 h)
  then show ?case by simp
next
  case (3 k j r h)
  obtain h1 a where p1: "parse j h = (h1, a)" by (cases "parse j h")
  obtain h2 ds2 where p2: "parse_props r h1 = (h2, ds2)" by (cases "parse_props r h1")
  from 3(3) p1 p2 have eq: "h' = h2" "ds = (k, a) # ds2" by auto
  from parse_extends(2) [OF p2] obtain ext where ext: "h2 = h1 @ ext" by blast
  have "stringify (nodes j) h1 a = Some j" using 3(1) [OF p1] .
  then have "stringify (nodes j) h2 a = Some j" unfolding ext by (rule stringify_extend(1))
  then have a: "stringify (nodes j + nodes_props r) h2 a = Some j"
    by (rule stringify_mono(1)) simp
  have "stringify_props (nodes_props r) h2 ds2 = Some r" using 3(2) p1 p2 by simp
  then have b: "stringify_props (nodes j + nodes_props r) h2 ds2 = Some r"
    by (rule stringify_mono(2)) simp
  show ?case using a b eq by simp
qed

lemma in_range_mono: "in_range lo h ds \<Longrightarrow> lo' \<le> lo \<Longrightarrow> in_range lo' (h @ ext) ds"
  unfolding in_range_def by fastforce

lemma in_range_Cons: "in_range lo h ((k, a) # ds) = (lo \<le> a \<and> a < length h \<and> in_range lo h ds)"
  unfolding in_range_def by simp

lemma fresh_from_snoc:
  assumes "fresh_from lo h" "in_range lo h (dependencies n)"
  shows "fresh_from lo (h @ [n])"
  unfolding fresh_from_def
proof (intro allI impI)
  fix b assume b: "lo \<le> b" "b < length (h @ [n])"
  show "in_range lo (h @ [n]) (dependencies ((h @ [n]) ! b))"
  proof (cases "b < length h")
    case True
    then have "in_range lo h (dependencies (h ! b))" using assms(1) b(1) by (simp add: fresh_from_def)
    then show ?thesis using True by (simp add: nth_append in_range_mono)
  next
    case False
    then have "b = length h" using b(2) by simp
    then show ?thesis using assms(2) by (simp add: in_range_mono)
  qed
qed

lemma fresh_from_append:
  assumes "fresh_from lo h" "fresh_from (length h) (h @ ext)" "lo \<le> length h"
  shows "fresh_from lo (h @ ext)"
  unfolding fresh_from_def
proof (intro allI impI)
  fix b assume b: "lo \<le> b" "b < length (h @ ext)"
  show "in_range lo (h @ ext) (dependencies ((h @ ext) ! b))"
  proof (cases "b < length h")
    case True
    then have "in_range lo h (dependencies (h ! b))" using assms(1) b(1) by (simp add: fresh_from_def)
    then show ?thesis using True by (simp add: nth_append in_range_mono)
  next
    case False
    then have "in_range (length h) (h @ ext) (dependencies ((h @ ext) ! b))"
      using assms(2) b(2) unfolding fresh_from_def by simp
    then show ?thesis using in_range_mono [of "length h" "h @ ext" _ lo "[]"] assms(3) by simp
  qed
qed

lemma parse_fresh:
  "parse j h = (h', c) \<Longrightarrow> length h \<le> c \<and> c < length h' \<and> fresh_from (length h) h'"
  "parse_props kids h = (h', ds) \<Longrightarrow> in_range (length h) h' ds \<and> fresh_from (length h) h'"
proof (induction j h and kids h arbitrary: h' c and h' ds rule: parse_parse_props.induct)
  case (1 v d m kids h)
  obtain h1 ds1 where p: "parse_props kids h = (h1, ds1)" by (cases "parse_props kids h")
  from parse_extends(2) [OF p] have len: "length h \<le> length h1" by auto
  from 1(2) p have eq: "h' = h1 @ [\<lparr>version = v, dir = d, main = m, dependencies = ds1\<rparr>]"
    "c = length h1" by auto
  have "fresh_from (length h) h'" unfolding eq(1)
    by (rule fresh_from_snoc) (use 1(1) [OF p] in simp_all)
  then show ?case using len eq by simp
next
  case (2 h)
  then show ?case by (simp add: in_range_def fresh_from_def)
next
  case (3 k j r h)
  obtain h1 a where p1: "parse j h = (h1, a)" by (cases "parse j h")
  obtain h2 ds2 where p2: "parse_props r h1 = (h2, ds2)" by (cases "parse_props r h1")
  from 3(3) p1 p2 have eq: "h' = h2" "ds = (k, a) # ds2" by auto
  from parse_extends(1) [OF p1] have l1: "length h \<le> length h1" by auto
  from parse_extends(2) [OF p2] obtain ext where ext: "h2 = h1 @ ext" by blast
  note ih1 = 3(1) [OF p1]
  note ih2 = 3(2) [OF p1 [symmetric] p2]
  have f: "fresh_from (length h) h2" unfolding ext
    by (rule fresh_from_append) (use ih1 ih2 l1 ext in simp_all)
  have "in_range (length h) h2 ds2"
    using in_range_mono [of "length h1" h2 ds2 "length h" "[]"] ih2 l1 by simp
  moreover have "length h \<le> a \<and> a < length h2" using ih1 ext by simp
  ultimately show ?case using f unfolding eq by (simp add: in_range_Cons)
qed

lemma reach_fresh:
  assumes "reach h' c b"
    and "lo \<le> c" "c < length h'"
    and "fresh_from lo h'"
  shows "lo \<le> b \<and> b < length h'"
  using assms
proof (induction rule: reach.induct)
  case (reach_self a)
  then show ?case by simp
next
  case (reach_step a k c b)
  from reach_step.prems reach_step.hyps(2)
  have "lo \<le> c \<and> c < length h'" unfolding fresh_from_def in_range_def by fastforce
  then show ?case using reach_step.IH reach_step.prems(3) by blast
qed

subsection \<open>The walk and the loop\<close>

lemma reduce_from_append:
  "reduce_from h obj (xs @ ys) =
     (case reduce_from h obj xs of Inl e \<Rightarrow> Inl e | Inr v \<Rightarrow> reduce_from h v ys)"
  by (induction xs arbitrary: obj) (auto split: sum.splits)

lemma reduce_single: "reduce h dm [name] = Inr (prop_get dm name)"
  by (simp add: reduce_def)

lemma reduce_from_falsy: "\<not> truthy obj \<Longrightarrow> ps \<noteq> [] \<Longrightarrow> reduce_from h obj ps = Inl TypeError"
  by (cases ps; cases obj) auto

lemma reduce_from_result:
  "reduce_from h obj ps = Inr v \<Longrightarrow> ps \<noteq> [] \<Longrightarrow> v = Undefined \<or> (\<exists>a. v = Ref a)"
proof (induction ps arbitrary: obj)
  case Nil
  then show ?case by simp
next
  case (Cons p ps)
  then obtain w where w: "deps_lookup h obj p = Inr w" "reduce_from h w ps = Inr v"
    by (auto split: sum.splits)
  show ?case
  proof (cases ps)
    case Nil
    with w show ?thesis
      by (cases obj) (auto simp: prop_get_def split: option.splits if_splits)
  next
    case (Cons q qs)
    with Cons.IH w show ?thesis by simp
  qed
qed

lemma reduce_head:
  "reduce h dm (name # rest) = Inr (Ref a) \<Longrightarrow> \<exists>a0. map_of dm name = Some a0 \<and> (rest = [] \<longrightarrow> a0 = a)"
proof (cases "map_of dm name")
  case None
  assume r: "reduce h dm (name # rest) = Inr (Ref a)"
  from None have "rest \<noteq> [] \<Longrightarrow> reduce h dm (name # rest) = Inl TypeError"
    by (simp add: reduce_def prop_get_def reduce_from_falsy)
  with r None show ?thesis by (cases rest) (auto simp: reduce_def prop_get_def)
next
  case (Some a0)
  assume r: "reduce h dm (name # rest) = Inr (Ref a)"
  with Some show ?thesis by (cases rest) (auto simp: reduce_def prop_get_def)
qed

lemma store_required_copy:
  assumes "store_required h dm rm (name # rest) = Inr (h', rm2)"
  shows "\<exists>a0 c j. map_of dm name = Some a0 \<and> rm2 = AList.update name c rm
     \<and> (\<exists>ext. h' = h @ ext) \<and> stringify (length h) h a0 = Some j
     \<and> stringify (length h') h' c = Some j
     \<and> length h \<le> c \<and> c < length h' \<and> fresh_from (length h) h'"
proof -
  from assms obtain a0 where a0: "map_of dm name = Some a0"
    by (auto simp: store_required_def prop_get_def split: option.splits)
  with assms obtain c where c: "deep_copy h (Ref a0) = Inr (h', c)" "rm2 = AList.update name c rm"
    by (auto simp: store_required_def prop_get_def split: sum.splits)
  from c(1) obtain j where j: "stringify (length h) h a0 = Some j" "parse j h = (h', c)"
    by (auto split: if_splits option.splits)
  from parse_extends(1) [OF j(2)] obtain ext where ext: "h' = h @ ext" "length ext = nodes j"
    by blast
  have "stringify (nodes j) h' c = Some j" using parse_stringify(1) [OF j(2)] .
  then have "stringify (length h') h' c = Some j"
    by (rule stringify_mono(1)) (simp add: ext)
  with a0 c(2) ext(1) j(1) parse_fresh(1) [OF j(2)] show ?thesis by blast
qed

lemma findModule_loop_stores_copy:
  assumes "findModule_loop h dm (Some rm) res rt = Inr (Ref a, h', rm')"
    and "\<not> truthy res"
  shows "\<exists>k name a0 c j.
      (\<forall>i<k. reduce h dm ((splice_m2 ^^ i) rt) = Inr Undefined) \<and>
      reduce h dm ((splice_m2 ^^ k) rt) = Inr (Ref a) \<and>
      (splice_m2 ^^ k) rt \<noteq> [] \<and> name = hd ((splice_m2 ^^ k) rt) \<and>
      map_of dm name = Some a0 \<and>
      (length ((splice_m2 ^^ k) rt) = 1 \<longrightarrow> a0 = a) \<and>
      rm' = Some (AList.update name c rm) \<and>
      (\<exists>ext. h' = h @ ext) \<and>
      stringify (length h) h a0 = Some j \<and> stringify (length h') h' c = Some j \<and>
      (\<forall>b. reach h' c b \<longrightarrow> length h \<le> b)"
  using assms
proof (induction "length rt" arbitrary: rt res rule: less_induct)
  case less
  note loop = less.prems(1)
  have ne: "rt \<noteq> []"
    using loop less.prems(2) by (auto simp: findModule_loop.simps [of _ _ _ res "[]"])
  then obtain name rest where rt: "rt = name # rest" by (cases rt) auto
  from loop ne less.prems(2) obtain v h1 rm1 where
    att: "attempt h dm (Some rm) rt = Inr (v, h1, rm1)" and
    rec: "findModule_loop h1 dm rm1 v (splice_m2 rt) = Inr (Ref a, h', rm')"
    by (subst (asm) findModule_loop.simps) (auto split: sum.splits)
  from att have red: "reduce h dm rt = Inr v"
    by (auto simp: attempt_def split: sum.splits if_splits)
  show ?case
  proof (cases "truthy v")
    case True
    with rec have eq: "v = Ref a" "h' = h1" "rm' = rm1"
      by (simp_all add: findModule_loop.simps [of _ _ _ v])
    from att True red obtain rm2 where st: "store_required h dm rm rt = Inr (h1, rm2)"
      "rm1 = Some rm2"
      by (auto simp: attempt_def split: sum.splits if_splits)
    from store_required_copy [OF st(1) [unfolded rt]]
    obtain a0 c j where c: "map_of dm name = Some a0" "rm2 = AList.update name c rm"
      "\<exists>ext. h1 = h @ ext" "stringify (length h) h a0 = Some j"
      "stringify (length h1) h1 c = Some j"
      "length h \<le> c" "c < length h1" "fresh_from (length h) h1" by blast
    from reduce_head [OF red [unfolded rt eq(1)]] c(1) have one: "rest = [] \<longrightarrow> a0 = a"
      by simp
    have nr: "\<forall>b. reach h1 c b \<longrightarrow> length h \<le> b"
      using reach_fresh [OF _ c(6) c(7) c(8)] by blast
    show ?thesis
      apply (rule exI [of _ 0], rule exI [of _ name], rule exI [of _ a0], rule exI [of _ c],
          rule exI [of _ j])
      using red eq st(2) c one nr rt by simp
  next
    case False
    with att red have same: "h1 = h" "rm1 = Some rm"
      by (auto simp: attempt_def split: sum.splits if_splits)
    from reduce_from_result [of h "Literal dm" rt v] red ne False
    have v: "v = Undefined" by (auto simp: reduce_def)
    have "length (splice_m2 rt) < length rt" using ne by (rule length_splice_m2)
    from less.hyps [OF this rec [unfolded same] False]
    obtain k name' a0 c j where ih:
      "\<forall>i<k. reduce h dm ((splice_m2 ^^ i) (splice_m2 rt)) = Inr Undefined"
      "reduce h dm ((splice_m2 ^^ k) (splice_m2 rt)) = Inr (Ref a)"
      "(splice_m2 ^^ k) (splice_m2 rt) \<noteq> []"
      "name' = hd ((splice_m2 ^^ k) (splice_m2 rt))"
      "map_of dm name' = Some a0"
      "length ((splice_m2 ^^ k) (splice_m2 rt)) = 1 \<longrightarrow> a0 = a"
      "rm' = Some (AList.update name' c rm)"
      "\<exists>ext. h' = h @ ext"
      "stringify (length h) h a0 = Some j" "stringify (length h') h' c = Some j"
      "\<forall>b. reach h' c b \<longrightarrow> length h \<le> b" by blast
    have all: "\<forall>i<Suc k. reduce h dm ((splice_m2 ^^ i) rt) = Inr Undefined"
    proof (intro allI impI)
      fix i assume "i < Suc k"
      then show "reduce h dm ((splice_m2 ^^ i) rt) = Inr Undefined"
        using ih(1) red v by (cases i) (auto simp: funpow_swap1)
    qed
    show ?thesis
      apply (rule exI [of _ "Suc k"], rule exI [of _ name'], rule exI [of _ a0],
          rule exI [of _ c], rule exI [of _ j])
      using all ih(2-) by (simp add: funpow_swap1)
  qed
qed

lemma splice_m2_drop: "2 \<le> length xs \<Longrightarrow> splice_m2 xs = drop_second_to_last xs"
proof -
  assume l: "2 \<le> length xs"
  then have ne: "xs \<noteq> []" by auto
  have "take (length xs - 2) xs = butlast (butlast xs)"
    by (simp add: butlast_conv_take numeral_2_eq_2)
  moreover have "drop (Suc (length xs - 2)) xs = [last xs]"
  proof -
    have "Suc (length xs - 2) = length xs - 1" using l by simp
    moreover have "drop (length xs - 1) xs = [last xs]"
      using ne(1) by (metis append_butlast_last_id append_eq_conv_conj length_butlast)
    ultimately show ?thesis by simp
  qed
  ultimately show ?thesis by (simp add: splice_m2_def drop_second_to_last_def)
qed

lemma splice_m2_single: "length xs < 2 \<Longrightarrow> splice_m2 xs = []"
  by (cases xs) (auto simp: splice_m2_def)

lemma reduce_walk_spec:
  "reduce h m rt = Inr v \<Longrightarrow> rt \<noteq> [] \<Longrightarrow>
     v = (case walk_spec h m rt of None \<Rightarrow> Undefined | Some a \<Rightarrow> Ref a)"
proof (induction h m rt rule: walk_spec.induct)
  case (1 h m)
  then show ?case by simp
next
  case (2 h m p)
  then show ?case by (auto simp: reduce_def prop_get_def split: option.splits)
next
  case (3 h m p q ps)
  show ?case
  proof (cases "map_of m p")
    case None
    then have "reduce h m (p # q # ps) = Inl TypeError"
      by (simp add: reduce_def prop_get_def)
    with 3(2) show ?thesis by simp
  next
    case (Some a)
    show ?thesis
    proof (cases "a < length h")
      case True
      with Some have "reduce h m (p # q # ps) = reduce h (dependencies (h ! a)) (q # ps)"
        by (simp add: reduce_def prop_get_def)
      with 3(1) [OF Some True] 3(2) Some True show ?thesis by simp
    next
      case False
      with Some have "reduce h m (p # q # ps) = Inl Dangling"
        by (simp add: reduce_def prop_get_def)
      with 3(2) show ?thesis by simp
    qed
  qed
qed

lemma findModule_loop_refines_spec:
  assumes "findModule_loop h dm None res rt = Inr (v, h', rm')"
    and "\<not> truthy res" and "rt \<noteq> []"
  shows "v = (case findModule_spec h dm rt of None \<Rightarrow> Undefined | Some a \<Rightarrow> Ref a)
     \<and> h' = h \<and> rm' = None"
  using assms
proof (induction "length rt" arbitrary: rt res rule: less_induct)
  case less
  note ne = less.prems(3)
  from less.prems obtain w where
    red: "reduce h dm rt = Inr w" and
    rec: "findModule_loop h dm None w (splice_m2 rt) = Inr (v, h', rm')"
    by (subst (asm) findModule_loop.simps) (auto simp: attempt_def split: sum.splits)
  note w = reduce_walk_spec [OF red ne]
  show ?case
  proof (cases "walk_spec h dm rt")
    case (Some a)
    with w rec show ?thesis
      by (simp add: findModule_loop.simps [of _ _ _ "Ref a"] findModule_spec.simps [of _ _ rt])
  next
    case None
    with w have wu: "w = Undefined" by simp
    show ?thesis
    proof (cases "2 \<le> length rt")
      case True
      then have sp: "splice_m2 rt = drop_second_to_last rt" by (rule splice_m2_drop)
      have lt: "length (splice_m2 rt) < length rt" using ne by (rule length_splice_m2)
      have "0 < length (drop_second_to_last rt)" by (simp add: drop_second_to_last_def)
      then have ne': "splice_m2 rt \<noteq> []" unfolding sp by simp
      from less.hyps [OF lt rec [unfolded wu] _ ne'] None True sp show ?thesis
        by (simp add: findModule_spec.simps [of _ _ rt])
    next
      case False
      then have "splice_m2 rt = []" by (simp add: splice_m2_single)
      with rec wu None False show ?thesis
        by (simp add: findModule_loop.simps [of _ _ _ Undefined "[]"]
            findModule_spec.simps [of _ _ rt])
    qed
  qed
qed

subsection \<open>Claims about findModule\<close>

text \<open>
  C10. \<open>findModule\<close> is not total: when the first walk reaches a segment whose lookup
  gives \<open>undefined\<close> and that segment is not the last of the route, the next step of the
  \<open>reduce\<close> reads \<open>.dependencies\<close> of \<open>undefined\<close> and the call raises a TypeError instead
  of returning a not-found result. With \<open>pre = []\<close> this is the case of a route of length
  at least two whose first segment is absent from the top level of the map.
\<close>

theorem findModule_raises_TypeError:
  assumes "reduce h dm pre = Inr obj"
    and "deps_lookup h obj p = Inr Undefined"
  shows "findModule h (pre @ p # q # rest) dm rm = Inl TypeError"
proof -
  have "reduce h dm (pre @ p # q # rest) = Inl TypeError"
    using assms by (simp add: reduce_def reduce_from_append)
  then show ?thesis
    by (simp add: findModule_def attempt_def findModule_loop.simps [of _ _ _ Null])
qed

theorem findModule_raises_TypeError_witness:
  "reduce flat_heap flat_map [] = Inr (Literal flat_map)
   \<and> deps_lookup flat_heap (Literal flat_map) ''jquery'' = Inr Undefined
   \<and> findModule flat_heap ([] @ [''jquery'', ''zepto'']) flat_map None = Inl TypeError"
proof -
  have r: "reduce flat_heap flat_map [] = Inr (Literal flat_map)" by (simp add: reduce_def)
  have l: "deps_lookup flat_heap (Literal flat_map) ''jquery'' = Inr Undefined" by code_simp
  from findModule_raises_TypeError [OF r l, of "''zepto''" "[]" None] r l show ?thesis by simp
qed

text \<open>
  C2. On the flat install the route \<open>ez-editor, yen, zepto\<close> (the route \<open>_bundle\<close> builds
  when \<open>ez-editor\<close> requires \<open>yen\<close> and \<open>yen\<close> requires \<open>zepto\<close>) makes the first walk
  read \<open>.dependencies\<close> of \<open>undefined\<close>: the call raises a TypeError. The algorithm of
  the specification resolves the same route, after two truncations, to the top-level
  \<open>zepto\<close> node, which is what a direct lookup of the name gives.
\<close>

theorem findModule_flat_route_raises:
  "findModule flat_heap [''ez-editor'', ''yen'', ''zepto''] flat_map None = Inl TypeError
   \<and> findModule_spec flat_heap flat_map [''ez-editor'', ''yen'', ''zepto''] = Some 2
   \<and> prop_get flat_map ''zepto'' = Ref 2"
  by code_simp

text \<open>
  Whenever \<open>findModule\<close> returns rather than raises, on a non-empty route and without a
  sink, its result is the one of the specification's algorithm and the store is unchanged.
\<close>

lemma findModule_refines_spec:
  assumes "findModule h rt dm None = Inr (v, h', rm')" and "rt \<noteq> []"
  shows "v = (case findModule_spec h dm rt of None \<Rightarrow> Undefined | Some a \<Rightarrow> Ref a)
     \<and> h' = h \<and> rm' = None"
  using findModule_loop_refines_spec [of h dm Null rt v h' rm'] assms
  by (simp add: findModule_def)

text \<open>
  C3, as the claim states it, fails. On the nested install the route \<open>ez-editor, yen\<close>
  resolves to the nested \<open>yen\<close> node (address 0), and the entry stored in the sink, under
  \<open>ez-editor\<close>, is a copy of the whole top-level \<open>ez-editor\<close> node: it is not structurally
  equal to the resolved node. On the flat install the same route resolves after one
  truncation, and the entry is stored under \<open>yen\<close>, not under the route's first segment.
\<close>

theorem findModule_copy_counterexample:
  "findModule nested_heap [''ez-editor'', ''yen''] nested_map (Some []) =
     Inr (Ref 0, nested_heap @ [pkg ''1.2.4'' [], pkg ''0.2.4'' [(''yen'', 2)]],
          Some [(''ez-editor'', 3)])
   \<and> stringify 4 (nested_heap @ [pkg ''1.2.4'' [], pkg ''0.2.4'' [(''yen'', 2)]]) 3
       \<noteq> stringify 4 (nested_heap @ [pkg ''1.2.4'' [], pkg ''0.2.4'' [(''yen'', 2)]]) 0
   \<and> findModule flat_heap [''ez-editor'', ''yen''] flat_map (Some []) =
       Inr (Ref 1, flat_heap @ [pkg ''1.2.4'' []], Some [(''yen'', 3)])"
  by code_simp

text \<open>
  C3, amended. Whenever \<open>findModule\<close> succeeds with a sink, some number \<open>k\<close> of
  truncations failed with \<open>undefined\<close> and the walk of the route truncated \<open>k\<close> times
  found the result. The sink then holds, under the first segment \<open>name\<close> of that truncated
  route, a deep copy of the top-level entry \<open>dependenciesMap[name]\<close> (the resolved node
  itself when the truncated route has one segment): the old store is a prefix of the new
  one, the copy serialises to the same tree as the entry, and every node reachable from
  the copy was allocated by the call, so the copy shares no node with the live map.
\<close>

theorem findModule_stores_copy:
  assumes "findModule h rt dm (Some rm) = Inr (Ref a, h', rm')"
  shows "\<exists>k name a0 c j.
      (\<forall>i<k. reduce h dm ((splice_m2 ^^ i) rt) = Inr Undefined) \<and>
      reduce h dm ((splice_m2 ^^ k) rt) = Inr (Ref a) \<and>
      (splice_m2 ^^ k) rt \<noteq> [] \<and> name = hd ((splice_m2 ^^ k) rt) \<and>
      map_of dm name = Some a0 \<and>
      (length ((splice_m2 ^^ k) rt) = 1 \<longrightarrow> a0 = a) \<and>
      rm' = Some (AList.update name c rm) \<and>
      (\<exists>ext. h' = h @ ext) \<and>
      stringify (length h) h a0 = Some j \<and> stringify (length h') h' c = Some j \<and>
      (\<forall>b. reach h' c b \<longrightarrow> length h \<le> b)"
  using findModule_loop_stores_copy [of h dm rm Null rt a h' rm'] assms
  by (simp add: findModule_def)

theorem findModule_stores_copy_witness:
  "findModule flat_heap [''ez-editor'', ''yen''] flat_map (Some []) =
     Inr (Ref 1, flat_heap @ [pkg ''1.2.4'' []], Some [(''yen'', 3)])
   \<and> (\<exists>k name a0 c j.
      (\<forall>i<k. reduce flat_heap flat_map ((splice_m2 ^^ i) [''ez-editor'', ''yen''])
                = Inr Undefined) \<and>
      reduce flat_heap flat_map ((splice_m2 ^^ k) [''ez-editor'', ''yen'']) = Inr (Ref 1) \<and>
      (splice_m2 ^^ k) [''ez-editor'', ''yen''] \<noteq> [] \<and>
      name = hd ((splice_m2 ^^ k) [''ez-editor'', ''yen'']) \<and>
      map_of flat_map name = Some a0 \<and>
      (length ((splice_m2 ^^ k) [''ez-editor'', ''yen'']) = 1 \<longrightarrow> a0 = 1) \<and>
      Some [(''yen'', 3)] = Some (AList.update name c []) \<and>
      (\<exists>ext. flat_heap @ [pkg ''1.2.4'' []] = flat_heap @ ext) \<and>
      stringify (length flat_heap) flat_heap a0 = Some j \<and>
      stringify (length (flat_heap @ [pkg ''1.2.4'' []])) (flat_heap @ [pkg ''1.2.4'' []]) c
        = Some j \<and>
      (\<forall>b. reach (flat_heap @ [pkg ''1.2.4'' []]) c b \<longrightarrow> length flat_heap \<le> b))"
proof -
  have run: "findModule flat_heap [''ez-editor'', ''yen''] flat_map (Some []) =
     Inr (Ref 1, flat_heap @ [pkg ''1.2.4'' []], Some [(''yen'', 3)])"
    by code_simp
  show ?thesis using run findModule_stores_copy [OF run] by (rule conjI)
qed

section \<open>Properties of the scheduler\<close>

lemma remove_id_filter:
  "i \<le> length xs \<Longrightarrow>
     remove_id i ident xs = filter (\<lambda>x. x \<noteq> ident) (take i xs) @ drop i xs"
proof (induction i arbitrary: xs)
  case 0
  then show ?case by simp
next
  case (Suc i)
  then have i: "i < length xs" by simp
  show ?case
  proof (cases "xs ! i = ident")
    case True
    let ?ys = "take i xs @ drop (Suc i) xs"
    have "i \<le> length ?ys" using i by simp
    from Suc.IH [OF this] have "remove_id i ident ?ys =
        filter (\<lambda>x. x \<noteq> ident) (take i xs) @ drop (Suc i) xs"
      using i by simp
    then show ?thesis using True i by (simp add: take_Suc_conv_app_nth)
  next
    case False
    have "i \<le> length xs" using i by simp
    from Suc.IH [OF this] False i show ?thesis
      by (simp add: take_Suc_conv_app_nth Cons_nth_drop_Suc)
  qed
qed

lemma remove_id_all: "remove_id (length xs) ident xs = filter (\<lambda>x. x \<noteq> ident) xs"
  by (simp add: remove_id_filter)

lemma precompile_effect:
  assumes "precompile env j s = Some (p, s')"
  shows "pending s' = pending s \<and>
     (precompiling s' = precompiling s \<or>
      precompiling s' = filter (\<lambda>x. x \<noteq> identity (job_mod j)) (precompiling s))"
  using assms
  by (auto simp: precompile_def Let_def remove_id_all split: option.splits if_splits bool.splits)

lemma queue_inv_call:
  assumes "queue_inv s" "Cache_precompile c m modules s = (r, s')"
  shows "queue_inv s'"
proof (cases "identity m \<in> set (precompiling s)")
  case True
  with assms show ?thesis by (simp add: Cache_precompile_def)
next
  case False
  with assms(1) have notin: "identity m \<notin> (\<lambda>j. identity (job_mod j)) ` set (pending s)"
    by (auto simp: queue_inv_def)
  from assms(2) False have
    "(pending s' = pending s \<or> pending s' = pending s @ [\<lparr>job_mod = m, job_dest = dest c\<rparr>])
     \<and> precompiling s' = precompiling s @ [identity m]"
    by (auto simp: Cache_precompile_def Let_def split: option.splits if_splits)
  with assms(1) notin show ?thesis by (auto simp: queue_inv_def)
qed

lemma queue_inv_run:
  assumes "queue_inv s" "run_next env s = Some s'"
  shows "queue_inv s'"
proof (cases "pending s")
  case Nil
  with assms show ?thesis by (simp add: run_next_def)
next
  case (Cons j rest)
  from assms(1) Cons have "identity (job_mod j) \<notin> (\<lambda>j. identity (job_mod j)) ` set rest"
    by (simp add: queue_inv_def)
  then have d1: "\<forall>k \<in> set rest. identity (job_mod k) \<noteq> identity (job_mod j)"
    by (metis image_eqI)
  from assms(1) Cons have d2: "distinct (map (\<lambda>j. identity (job_mod j)) rest)"
    "\<forall>j \<in> set rest. identity (job_mod j) \<in> set (precompiling s)"
    by (simp_all add: queue_inv_def)
  note d = d1 d2
  show ?thesis
  proof (cases "settled s")
    case (Rejected err)
    with assms(2) Cons d show ?thesis by (auto simp: run_next_def queue_inv_def)
  next
    case Fulfilled
    with assms(2) Cons obtain p s1 where p: "precompile env j s = Some (p, s1)"
      "s' = s1\<lparr>pending := rest, settled := p\<rparr>"
      by (auto simp: run_next_def split: option.splits)
    from precompile_effect [OF p(1)] d p(2) show ?thesis
      by (auto simp: queue_inv_def)
  qed
qed

lemma reachable_queue_inv: "reachable s \<Longrightarrow> queue_inv s"
proof (induction rule: reachable.induct)
  case start
  then show ?case by (simp add: queue_inv_def initial_def)
next
  case (call s c m modules r s')
  then show ?case by (blast intro: queue_inv_call)
next
  case (run s env s')
  then show ?case by (blast intro: queue_inv_run)
qed

lemma distinct_map_filter_le1:
  "distinct (map f xs) \<Longrightarrow> length (filter (\<lambda>x. f x = i) xs) \<le> 1"
  by (induction xs) (auto simp: filter_empty_conv image_iff)

lemma enqueue_yen:
  "Cache_precompile public_cache yen example_modules initial = (None, yen_enqueued)"
  by code_simp

subsection \<open>Claims about the scheduler\<close>

text \<open>
  C7. In every reachable state, a call of \<open>Cache.precompile\<close> for an identity that is in
  the in-flight list changes nothing and enqueues nothing, and the links not yet run
  hold at most one job for any identity.
\<close>

theorem precompile_in_flight_noop:
  assumes "reachable s"
  shows "(identity m \<in> set (precompiling s) \<longrightarrow> Cache_precompile c m modules s = (None, s))
     \<and> length (filter (\<lambda>j. identity (job_mod j) = i) (pending s)) \<le> 1"
proof
  show "identity m \<in> set (precompiling s) \<longrightarrow> Cache_precompile c m modules s = (None, s)"
    by (simp add: Cache_precompile_def)
  from reachable_queue_inv [OF assms]
  have "distinct (map (\<lambda>j. identity (job_mod j)) (pending s))"
    by (simp add: queue_inv_def)
  then show "length (filter (\<lambda>j. identity (job_mod j) = i) (pending s)) \<le> 1"
    by (rule distinct_map_filter_le1)
qed

theorem precompile_in_flight_noop_witness:
  "reachable yen_enqueued
   \<and> identity yen \<in> set (precompiling yen_enqueued)
   \<and> Cache_precompile public_cache yen example_modules yen_enqueued = (None, yen_enqueued)
   \<and> length (filter (\<lambda>j. identity (job_mod j) = ''yen/1.2.4'') (pending yen_enqueued)) \<le> 1"
proof -
  have r: "reachable yen_enqueued"
    by (rule reachable.call [OF reachable.start enqueue_yen])
  have i: "identity yen \<in> set (precompiling yen_enqueued)"
    by (simp add: identity_def yen_def yen_enqueued_def)
  from precompile_in_flight_noop [OF r, of yen public_cache example_modules "''yen/1.2.4''"] r i
  show ?thesis by simp
qed

text \<open>
  C8. A job whose worker exits with code 0 takes its identity out of the in-flight list.
\<close>

lemma successful_job_leaves_flight:
  assumes "precompile env j s = Some (Fulfilled, s')" and "spawned s' \<noteq> spawned s"
  shows "identity (job_mod j) \<notin> set (precompiling s')"
  using assms
  by (auto simp: precompile_def Let_def remove_id_all split: option.splits if_splits bool.splits)

text \<open>
  C8 fails on a job whose worker exits with a non-zero code: the rejection is thrown at
  the \<open>yield\<close>, the loop that removes the identity is not reached, and the identity
  stays in the in-flight list. A later \<open>Cache.precompile\<close> for the same module is then a
  no-op and enqueues nothing.
\<close>

theorem failed_job_stays_in_flight:
  "run_next yen_fails yen_enqueued = Some yen_failed
   \<and> identity yen \<in> set (precompiling yen_failed)
   \<and> Cache_precompile public_cache yen example_modules yen_failed = (None, yen_failed)"
  by code_simp

text \<open>
  C9 fails on two jobs of which the first fails. With \<open>yen\<close> and \<open>zepto\<close> enqueued in this
  order and the worker of \<open>yen\<close> exiting with code 1, the link of \<open>zepto\<close> finds the promise
  before it rejected: its \<open>onRejected\<close> callback logs the failure under the name of
  \<open>zepto\<close> and the compilation of \<open>zepto\<close> never runs, although the same environment
  compiles \<open>zepto\<close> when it is enqueued alone.
\<close>

theorem job_after_failure_is_skipped:
  "Cache_precompile public_cache zepto example_modules yen_enqueued = (None, both_enqueued)
   \<and> Option.bind (run_next yen_fails both_enqueued) (run_next yen_fails) = Some zepto_skipped
   \<and> spawned zepto_skipped = [worker_args ''yen/1.2.4/index'']
   \<and> map_option spawned
        (run_next yen_fails (snd (Cache_precompile public_cache zepto example_modules initial)))
       = Some [worker_args ''zepto/1.1.6/index'']"
  by code_simp

section \<open>Properties of the cache\<close>

subsection \<open>Paths, names and extensions\<close>

lemma takeWhile_noslash:
  assumes "CHR ''/'' \<notin> set b"
  shows "takeWhile (\<lambda>c. c \<noteq> CHR ''/'') (rev b @ CHR ''/'' # r) = rev b"
proof -
  have "\<And>x. x \<in> set (rev b) \<Longrightarrow> x \<noteq> CHR ''/''" using assms by auto
  from takeWhile_append2 [of "rev b" "\<lambda>c. c \<noteq> CHR ''/''", OF this]
  show ?thesis by simp
qed

lemma dropWhile_noslash:
  assumes "CHR ''/'' \<notin> set b"
  shows "dropWhile (\<lambda>c. c \<noteq> CHR ''/'') (rev b @ CHR ''/'' # r) = CHR ''/'' # r"
proof -
  have "\<And>x. x \<in> set (rev b) \<Longrightarrow> x \<noteq> CHR ''/''" using assms by auto
  from dropWhile_append2 [of "rev b" "\<lambda>c. c \<noteq> CHR ''/''", OF this]
  show ?thesis by simp
qed

lemma basename_noslash: "CHR ''/'' \<notin> set b \<Longrightarrow> basename b = b"
proof -
  assume a: "CHR ''/'' \<notin> set b"
  have tw: "takeWhile (\<lambda>c. c \<noteq> CHR ''/'') (rev b) = rev b"
    by (rule takeWhile_eq_all_conv [THEN iffD2]) (use a in auto)
  show ?thesis unfolding basename_def tw by simp
qed

lemma dirname_noslash: "CHR ''/'' \<notin> set b \<Longrightarrow> dirname b = ''.''"
  by (simp add: dirname_def)

lemma basename_slash: "CHR ''/'' \<notin> set b \<Longrightarrow> basename (d @ CHR ''/'' # b) = b"
  by (simp add: basename_def takeWhile_noslash)

lemma dirname_slash:
  "CHR ''/'' \<notin> set b \<Longrightarrow> dirname (d @ CHR ''/'' # b) = (if d = [] then ''/'' else d)"
  by (simp add: dirname_def dropWhile_noslash)

lemma path_join_parts:
  assumes "d \<noteq> []" "CHR ''/'' \<notin> set e" "e \<noteq> ''.''"
  shows "dirname (path_join d e) = d" "basename (path_join d e) = e"
  using assms by (simp_all add: path_join_def dirname_slash basename_slash)

lemma split_last_slash:
  "CHR ''/'' \<in> set s \<Longrightarrow> \<exists>d b. s = d @ CHR ''/'' # b \<and> CHR ''/'' \<notin> set b"
  by (rule split_list_last)

lemma ends_with_split: "ends_with suf s \<Longrightarrow> s = take (length s - length suf) s @ suf"
proof -
  assume "ends_with suf s"
  then have "drop (length s - length suf) s = suf" by (simp add: ends_with_def)
  with append_take_drop_id [of "length s - length suf" s] show ?thesis by simp
qed

lemma ext_match_js: "ext_match (t @ ''.js'') = Some (t, ''.js'')"
  by (simp add: ext_match_def is_word_def Let_def)

lemma ext_match_css: "ext_match (t @ ''.css'') = Some (t, ''.css'')"
  by (simp add: ext_match_def is_word_def Let_def)

lemma checksum_match_hit:
  assumes "length h = 32" "list_all is_hex h"
  shows "checksum_match ext (b @ CHR ''-'' # h @ ext) = Some b"
proof -
  let ?e = "b @ CHR ''-'' # h @ ext"
  have n: "length ?e - (33 + length ext) = length b" using assms(1) by simp
  have le: "33 + length ext \<le> length ?e" using assms(1) by simp
  have d0: "drop (length b) ?e = CHR ''-'' # h @ ext" by simp
  have d1: "drop (Suc (length b)) ?e = h @ ext" by simp
  have d2: "drop (length b + 33) ?e = ext"
  proof -
    have "drop (length b + 33) ?e = drop 32 (drop (Suc (length b)) ?e)"
      by (simp only: drop_drop) (simp add: add.commute)
    also have "\<dots> = ext" unfolding d1 using assms(1) by simp
    finally show ?thesis .
  qed
  have t: "take 32 (drop (Suc (length b)) ?e) = h" unfolding d1 using assms(1) by simp
  have nth: "?e ! length b = CHR ''-''" by (simp add: nth_append)
  have tk: "take (length b) ?e = b" by simp
  show ?thesis
    unfolding checksum_match_def Let_def n d2 t nth tk using le assms(2) by simp
qed

lemma strip_checksum_js:
  assumes "length h = 32" "list_all is_hex h"
  shows "strip_checksum (b @ CHR ''-'' # h @ ''.js'') = b @ ''.js''"
  using checksum_match_hit [OF assms, of "''.js''" b] by (simp add: strip_checksum_def)

lemma strip_checksum_css:
  assumes "length h = 32" "list_all is_hex h"
  shows "strip_checksum (b @ CHR ''-'' # h @ ''.css'') = b @ ''.css''"
proof -
  have "drop (length (b @ CHR ''-'' # h @ ''.css'') - (33 + length ''.js'') + 33)
          (b @ CHR ''-'' # h @ ''.css'') = ''css''"
    using assms(1) by simp
  then have "checksum_match ''.js'' (b @ CHR ''-'' # h @ ''.css'') = None"
    unfolding checksum_match_def Let_def by simp
  with checksum_match_hit [OF assms, of "''.css''" b] show ?thesis
    by (simp add: strip_checksum_def)
qed

lemma artifact_parts:
  assumes rel: "relative_path (t @ x)" and a: "a \<noteq> []"
    and x: "CHR ''/'' \<notin> set x" and r: "CHR ''/'' \<notin> set r"
  shows "path_join a (t @ CHR ''-'' # r) =
           path_join (path_join a (dirname (t @ x))) (basename t @ CHR ''-'' # r)
    \<and> basename (t @ x) = basename t @ x
    \<and> CHR ''/'' \<notin> set (basename t @ CHR ''-'' # r)"
proof -
  have nd: "\<And>u v. u @ CHR ''-'' # v \<noteq> ''.''"
  proof
    fix u v :: string
    assume "u @ CHR ''-'' # v = ''.''"
    then have "set (u @ CHR ''-'' # v) = set ''.''" by simp
    then show False by auto
  qed
  show ?thesis
  proof (cases "CHR ''/'' \<in> set t")
    case False
    then have "CHR ''/'' \<notin> set (t @ x)" using x by simp
    then have "dirname (t @ x) = ''.''" "basename (t @ x) = t @ x"
      by (rule dirname_noslash, rule basename_noslash)
    moreover have "basename t = t" using False by (rule basename_noslash)
    ultimately show ?thesis using False r nd by (simp add: path_join_def)
  next
    case True
    from split_last_slash [OF this] obtain d b where
      t: "t = d @ CHR ''/'' # b" and b: "CHR ''/'' \<notin> set b" by blast
    have bx: "CHR ''/'' \<notin> set (b @ x)" using b x by simp
    have dn: "dirname (t @ x) = (if d = [] then ''/'' else d)"
      using dirname_slash [OF bx, of d] by (simp add: t)
    have bn: "basename (t @ x) = b @ x" using basename_slash [OF bx, of d] by (simp add: t)
    have bt: "basename t = b" using basename_slash [OF b, of d] by (simp add: t)
    from rel have d: "d \<noteq> []" "d \<noteq> ''.''"
      by (auto simp: relative_path_def starts_with_def t)
    have "path_join a (t @ CHR ''-'' # r) =
           path_join (path_join a (dirname (t @ x))) (basename t @ CHR ''-'' # r)"
      using d dn bt nd by (simp add: path_join_def t)
    then show ?thesis using bn bt b r by simp
  qed
qed

subsection \<open>The effect of the file-system calls\<close>

lemma is_dir_exists: "is_dir disk p \<Longrightarrow> exists disk p"
  by (auto simp: is_dir_def exists_def)

lemma unlink_map: "unlink disk p = Inr disk' \<Longrightarrow> map_of disk' = (map_of disk)(p := None)"
  by (auto simp: unlink_def delete_conv' split: option.splits entry.splits)

lemma remove_entries_map:
  "remove_entries disk d fname es = Inr disk' \<Longrightarrow>
     map_of disk' q =
       (if \<exists>e \<in> set es. strip_checksum e = fname \<and> q = path_join d e then None
        else map_of disk q)"
proof (induction es arbitrary: disk)
  case Nil
  then show ?case by simp
next
  case (Cons e es)
  show ?case
  proof (cases "strip_checksum e = fname")
    case True
    with Cons.prems obtain disk1 where u: "unlink disk (path_join d e) = Inr disk1"
      and r: "remove_entries disk1 d fname es = Inr disk'"
      by (auto split: sum.splits)
    from Cons.IH [OF r] unlink_map [OF u] True show ?thesis by auto
  next
    case False
    with Cons.prems have "remove_entries disk d fname es = Inr disk'" by simp
    from Cons.IH [OF this] False show ?thesis by auto
  qed
qed

lemma Cache_remove_map:
  assumes "Cache_remove c disk id' = Inr disk1"
  shows "map_of disk1 q = None \<or> map_of disk1 q = map_of disk q"
  using assms
  by (auto simp: Cache_remove_def Let_def dest: remove_entries_map [where q = q]
      split: if_splits sum.splits)

lemma Cache_remove_gone:
  assumes wf: "wf_fs disk" and dest: "dest c \<noteq> []"
    and rm: "Cache_remove c disk id' = Inr disk1"
    and e: "CHR ''/'' \<notin> set e" "e \<noteq> ''.''" "strip_checksum e = basename id'"
  shows "\<not> exists disk1 (path_join (path_join (dest c) (dirname id')) e)"
proof -
  let ?d = "path_join (dest c) (dirname id')"
  let ?p = "path_join ?d e"
  have d: "?d \<noteq> []" using dest by (simp add: path_join_def)
  have parts: "dirname ?p = ?d" "basename ?p = e" using path_join_parts [OF d e(1,2)] .
  have p: "?p = ?d @ ''/'' @ e" using e(2) by (simp add: path_join_def)
  have "2 \<le> length ?p" using d unfolding p by (cases ?d) auto
  then have special: "?p \<noteq> ''/''" "?p \<noteq> ''.''" by auto
  have "map_of disk1 ?p = None"
  proof (cases "map_of disk ?p")
    case None
    with Cache_remove_map [OF rm, of ?p] show ?thesis by auto
  next
    case (Some en)
    then have key: "?p \<in> set (map fst disk)" by (metis map_of_eq_None_iff option.distinct(1) set_map)
    with wf parts(1) have isd: "is_dir disk ?d" by (auto simp: wf_fs_def)
    then have ex: "exists disk ?d" by (rule is_dir_exists)
    from rm ex isd have re: "remove_entries disk ?d (basename id')
        (map basename (filter (\<lambda>p. dirname p = ?d) (map fst disk))) = Inr disk1"
      by (simp add: Cache_remove_def Let_def readdir_def)
    have "e \<in> set (map basename (filter (\<lambda>p. dirname p = ?d) (map fst disk)))"
      using key parts by force
    with remove_entries_map [OF re, of ?p] e(3) show ?thesis by auto
  qed
  with special show ?thesis by (simp add: exists_def)
qed

lemma length_dirname: "x \<noteq> [] \<Longrightarrow> length (dirname x) \<le> length x"
proof (cases "CHR ''/'' \<in> set x")
  case False
  assume "x \<noteq> []"
  then have "1 \<le> length x" by (cases x) auto
  with False show ?thesis by (simp add: dirname_noslash)
next
  case True
  from split_last_slash [OF this] obtain d b where x: "x = d @ CHR ''/'' # b"
    and b: "CHR ''/'' \<notin> set b" by blast
  show ?thesis using dirname_slash [OF b, of d] by (simp add: x)
qed

lemma mkdirp_keys:
  "mkdirp disk x = Inr disk' \<Longrightarrow> length x < length k \<Longrightarrow> map_of disk' k = map_of disk k"
proof (induction disk x arbitrary: disk' rule: mkdirp.induct)
  case (1 disk d)
  show ?case
  proof (cases "is_dir disk d")
    case True
    with 1(2) show ?thesis by (simp add: mkdirp.simps [of disk d])
  next
    case False
    with 1(2) have nex: "\<not> exists disk d" by (auto simp: mkdirp.simps [of disk d] split: if_splits)
    with 1(2) False obtain disk1 where m: "mkdirp disk (dirname d) = Inr disk1"
      and eq: "disk' = AList.update d Directory disk1"
      by (auto simp: mkdirp.simps [of disk d] split: sum.splits)
    have kd: "k \<noteq> d" using 1(3) by auto
    show ?thesis
    proof (cases "d = []")
      case True
      then have "mkdirp disk (dirname d) = Inr disk"
        by (simp add: dirname_def mkdirp.simps [of disk "''.''"] is_dir_def)
      with m eq kd show ?thesis by (simp add: update_conv')
    next
      case False
      from length_dirname [OF this] 1(3) have "length (dirname d) < length k" by simp
      from 1(1) [OF \<open>\<not> is_dir disk d\<close> nex m this] eq kd show ?thesis
        by (simp add: update_conv')
    qed
  qed
qed

lemma writeFile_map:
  "writeFile K disk p t = Inr disk' \<Longrightarrow> map_of disk' = (map_of disk)(p \<mapsto> File (written K t))"
  by (auto simp: writeFile_def update_conv' split: if_splits)

lemma hex_noslash: "list_all is_hex h \<Longrightarrow> CHR ''/'' \<notin> set h"
  by (auto simp: list_all_iff is_hex_def)

lemma write_leaves_one_artifact:
  assumes wf: "wf_fs disk" and dest: "dest c \<noteq> []" and rel: "relative_path id'"
    and ext: "ext = ''.js'' \<or> ext = ''.css''" and id': "id' = t @ ext"
    and m: "length (md5 source) = 32" "list_all is_hex (md5 source)"
    and w: "Cache_write K c md5 disk id' source content = Inr disk'"
    and h: "length h = 32" "list_all is_hex h"
    and ex: "exists disk' (path_join (dest c) (replace_RE_EXT (\<lambda>ext. ''-'' @ h @ ext) id'))"
  shows "h = md5 source"
proof -
  let ?d = "path_join (dest c) (dirname id')"
  let ?e = "\<lambda>k. basename t @ CHR ''-'' # k @ ext"
  have em: "ext_match id' = Some (t, ext)"
    using ext id' ext_match_js [of t] ext_match_css [of t] by auto
  have rep: "\<And>k. replace_RE_EXT (\<lambda>ext. CHR ''-'' # k @ ext) id' = t @ CHR ''-'' # k @ ext"
    by (simp add: replace_RE_EXT_def em)
  have xs: "CHR ''/'' \<notin> set ext" using ext by auto
  have d: "?d \<noteq> []" using dest by (simp add: path_join_def)
  have parts: "path_join (dest c) (t @ CHR ''-'' # k @ ext) = path_join ?d (?e k)
      \<and> basename id' = basename t @ ext \<and> CHR ''/'' \<notin> set (?e k)"
    if "list_all is_hex k" for k
  proof -
    have "CHR ''/'' \<notin> set (k @ ext)" using hex_noslash [OF that] xs by simp
    from artifact_parts [OF rel [unfolded id'] dest xs this] show ?thesis by (simp add: id')
  qed
  have nd: "?e k \<noteq> ''.''" for k
  proof
    assume "?e k = ''.''"
    then have "set (?e k) = set ''.''" by simp
    then show False by auto
  qed
  have strip: "strip_checksum (?e h) = basename id'"
    using ext strip_checksum_js [OF h, of "basename t"] strip_checksum_css [OF h, of "basename t"]
      parts [OF h(2)] by auto
  let ?A = "path_join ?d (?e h)"
  let ?F = "path_join ?d (?e (md5 source))"
  have A: "path_join (dest c) (replace_RE_EXT (\<lambda>ext. CHR ''-'' # h @ ext) id') = ?A"
    using parts [OF h(2)] by (simp add: rep)
  have F: "path_join (dest c) (replace_RE_EXT (\<lambda>ext. CHR ''-'' # md5 source @ ext) id') = ?F"
    using parts [OF m(2)] by (simp add: rep)
  from w obtain disk1 disk2 where
    rm: "Cache_remove c disk id' = Inr disk1" and
    mk: "mkdirp disk1 (dirname ?F) = Inr disk2" and
    wr: "writeFile K disk2 ?F content = Inr disk'"
    by (auto simp: Cache_write_def Let_def F split: sum.splits)
  have gone: "\<not> exists disk1 ?A"
    using Cache_remove_gone [OF wf dest rm _ nd strip] parts [OF h(2)] by simp
  then have n1: "map_of disk1 ?A = None" by (simp add: exists_def)
  have dF: "dirname ?F = ?d" using path_join_parts(1) [OF d _ nd] parts [OF m(2)] by simp
  have "length ?d < length ?A" using nd [of h] by (simp add: path_join_def)
  from mkdirp_keys [OF mk [unfolded dF] this] n1 have n2: "map_of disk2 ?A = None" by simp
  have Ap: "?A = ?d @ ''/'' @ ?e h" using nd [of h] by (simp add: path_join_def)
  have "2 \<le> length ?A" using d unfolding Ap by (cases ?d) auto
  then have "?A \<noteq> ''/''" "?A \<noteq> ''.''" by auto
  with ex have "map_of disk' ?A \<noteq> None" by (simp add: exists_def A)
  with writeFile_map [OF wr] n2 have "?A = ?F" by (auto split: if_splits)
  then show ?thesis using nd by (simp add: path_join_def)
qed

lemma write_stores_artifact:
  assumes "Cache_write K c md5 disk id' source content = Inr disk'"
  shows "map_of disk' (path_join (dest c) (replace_RE_EXT (\<lambda>ext. ''-'' @ md5 source @ ext) id'))
           = Some (File (written K content))"
  using assms
  by (auto simp: Cache_write_def Let_def split: sum.splits dest!: writeFile_map)

subsection \<open>Claims about the cache\<close>

text \<open>
  C5, as the claim states it, fails for a cache whose encoding does not turn the bytes
  written back into the content. \<open>Cache.write\<close> hands the content to \<open>writeFile\<close> with
  no encoding, \<open>Cache.read\<close> reads with \<open>this.encoding\<close>: a cache created with no
  encoding reads a Buffer where the string \<open>compiled a\<close> was written, and a cache with
  the encoding \<open>hex\<close> reads the hexadecimal digits of its bytes.
\<close>

theorem read_presents_bytes_counterexample:
  "Cache_write ascii_codec raw_cache md5_ab [] ''yen/1.2.4/index.js'' ''a'' (Text ''compiled a'')
      = Inr disk_a
   \<and> Cache_read ascii_codec raw_cache md5_ab disk_a ''yen/1.2.4/index.js'' ''a''
      = Inr (Some (Buffer ''compiled a''))
   \<and> Cache_write ascii_codec hex_cache md5_ab [] ''yen/1.2.4/index.js'' ''a'' (Text ''compiled a'')
      = Inr disk_a
   \<and> Cache_read ascii_codec hex_cache md5_ab disk_a ''yen/1.2.4/index.js'' ''a''
      = Inr (Some (Text ''636f6d70696c65642061''))"
  by code_simp

text \<open>
  C5, amended. After a successful \<open>Cache.write(id, s1, c1)\<close>, \<open>Cache.read(id, s1)\<close>
  finds the artifact and returns its bytes as \<open>readFile\<close> presents them under the
  encoding of the cache, or throws when that names no encoding. It returns \<open>c1\<close> itself
  when \<open>c1\<close> is a string and the encoding of the cache decodes the UTF-8 bytes of \<open>c1\<close>
  back to \<open>c1\<close>, and a Buffer of the bytes of \<open>c1\<close> when \<open>c1\<close> is a Buffer and the cache
  has no encoding. \<open>Cache.read\<close> of a source whose artifact path does not exist returns
  \<open>undefined\<close> and raises nothing, whatever the encoding.
\<close>

theorem write_then_read:
  "(Cache_write K c md5 disk id' s1 content = Inr disk' \<longrightarrow>
      Cache_read K c md5 disk' id' s1 =
        (case presented K (encoding c) of
           Inl e \<Rightarrow> Inl e
         | Inr present \<Rightarrow> Inr (Some (present (written K content)))))
   \<and> (Cache_write K c md5 disk id' s1 (Text c1) = Inr disk1 \<and> encoding c = Some e \<and> e \<noteq> []
        \<and> decoder K e = Some toString \<and> toString (utf8_bytes K c1) = c1 \<longrightarrow>
      Cache_read K c md5 disk1 id' s1 = Inr (Some (Text c1)))
   \<and> (Cache_write K c md5 disk id' s1 (Buffer b1) = Inr disk2
        \<and> (encoding c = None \<or> encoding c = Some []) \<longrightarrow>
      Cache_read K c md5 disk2 id' s1 = Inr (Some (Buffer b1)))
   \<and> (\<not> exists disk (path_join (dest c) (replace_RE_EXT (\<lambda>ext. ''-'' @ md5 source @ ext) id'))
        \<longrightarrow> Cache_read K c md5 disk id' source = Inr None)"
proof (intro conjI impI)
  assume "Cache_write K c md5 disk id' s1 content = Inr disk'"
  from write_stores_artifact [OF this]
  show "Cache_read K c md5 disk' id' s1 =
        (case presented K (encoding c) of
           Inl e \<Rightarrow> Inl e
         | Inr present \<Rightarrow> Inr (Some (present (written K content))))"
    by (simp add: Cache_read_def Let_def exists_def readFile_def split: sum.splits)
next
  assume a: "Cache_write K c md5 disk id' s1 (Text c1) = Inr disk1 \<and> encoding c = Some e \<and> e \<noteq> []
        \<and> decoder K e = Some toString \<and> toString (utf8_bytes K c1) = c1"
  then have w: "Cache_write K c md5 disk id' s1 (Text c1) = Inr disk1" by simp
  from write_stores_artifact [OF w] a
  show "Cache_read K c md5 disk1 id' s1 = Inr (Some (Text c1))"
    by (simp add: Cache_read_def Let_def exists_def readFile_def presented_def written_def)
next
  assume a: "Cache_write K c md5 disk id' s1 (Buffer b1) = Inr disk2
        \<and> (encoding c = None \<or> encoding c = Some [])"
  then have w: "Cache_write K c md5 disk id' s1 (Buffer b1) = Inr disk2" by simp
  from write_stores_artifact [OF w] a
  show "Cache_read K c md5 disk2 id' s1 = Inr (Some (Buffer b1))"
    by (auto simp: Cache_read_def Let_def exists_def readFile_def presented_def written_def)
next
  assume "\<not> exists disk (path_join (dest c) (replace_RE_EXT (\<lambda>ext. ''-'' @ md5 source @ ext) id'))"
  then show "Cache_read K c md5 disk id' source = Inr None"
    by (simp add: Cache_read_def Let_def)
qed

theorem write_then_read_witness:
  "Cache_write ascii_codec public_cache md5_ab [] ''yen/1.2.4/index.js'' ''a'' (Text ''compiled a'')
      = Inr disk_a
   \<and> encoding public_cache = Some ''utf8'' \<and> ''utf8'' \<noteq> []
   \<and> decoder ascii_codec ''utf8'' = Some (\<lambda>b. b)
   \<and> utf8_bytes ascii_codec ''compiled a'' = ''compiled a''
   \<and> Cache_read ascii_codec public_cache md5_ab disk_a ''yen/1.2.4/index.js'' ''a''
      = Inr (Some (Text ''compiled a''))
   \<and> Cache_write ascii_codec raw_cache md5_ab [] ''yen/1.2.4/index.js'' ''a'' (Buffer ''compiled a'')
      = Inr disk_a
   \<and> encoding raw_cache = None
   \<and> Cache_read ascii_codec raw_cache md5_ab disk_a ''yen/1.2.4/index.js'' ''a''
      = Inr (Some (Buffer ''compiled a''))
   \<and> \<not> exists disk_a (path_join (dest public_cache)
           (replace_RE_EXT (\<lambda>ext. ''-'' @ md5_ab ''b'' @ ext) ''yen/1.2.4/index.js''))
   \<and> Cache_read ascii_codec public_cache md5_ab disk_a ''yen/1.2.4/index.js'' ''b'' = Inr None"
proof -
  have w: "Cache_write ascii_codec public_cache md5_ab [] ''yen/1.2.4/index.js'' ''a''
      (Text ''compiled a'') = Inr disk_a"
    by code_simp
  have e: "encoding public_cache = Some ''utf8'' \<and> ''utf8'' \<noteq> []
      \<and> decoder ascii_codec ''utf8'' = Some (\<lambda>b. b)
      \<and> utf8_bytes ascii_codec ''compiled a'' = ''compiled a''"
    by (simp add: public_cache_def ascii_codec_def)
  have wb: "Cache_write ascii_codec raw_cache md5_ab [] ''yen/1.2.4/index.js'' ''a''
      (Buffer ''compiled a'') = Inr disk_a"
    by code_simp
  have eb: "encoding raw_cache = None" by (simp add: raw_cache_def)
  have n: "\<not> exists disk_a (path_join (dest public_cache)
      (replace_RE_EXT (\<lambda>ext. ''-'' @ md5_ab ''b'' @ ext) ''yen/1.2.4/index.js''))"
    by code_simp
  note t = write_then_read
  from t [where K = ascii_codec and c = public_cache and ?md5.0 = md5_ab and disk = "[]"
      and id' = "''yen/1.2.4/index.js''" and ?s1.0 = "''a''" and ?c1.0 = "''compiled a''"
      and ?disk1.0 = disk_a and e = "''utf8''" and toString = "\<lambda>b. b"] w e
  have r: "Cache_read ascii_codec public_cache md5_ab disk_a ''yen/1.2.4/index.js'' ''a''
      = Inr (Some (Text ''compiled a''))" by blast
  from t [where K = ascii_codec and c = raw_cache and ?md5.0 = md5_ab and disk = "[]"
      and id' = "''yen/1.2.4/index.js''" and ?s1.0 = "''a''" and ?b1.0 = "''compiled a''"
      and ?disk2.0 = disk_a] wb eb
  have rb: "Cache_read ascii_codec raw_cache md5_ab disk_a ''yen/1.2.4/index.js'' ''a''
      = Inr (Some (Buffer ''compiled a''))" by blast
  from t [where K = ascii_codec and c = public_cache and ?md5.0 = md5_ab
      and id' = "''yen/1.2.4/index.js''" and disk = disk_a and source = "''b''"] n
  have a: "Cache_read ascii_codec public_cache md5_ab disk_a ''yen/1.2.4/index.js'' ''b'' = Inr None"
    by blast
  from w e r wb eb rb n a show ?thesis by blast
qed

text \<open>
  C6, as the claim states it, fails for an id whose extension is neither \<open>.js\<close> nor
  \<open>.css\<close>: the pattern of \<open>Cache.remove\<close> strips a checksum only before these two
  extensions. \<open>Cache.remove('theme.less')\<close> leaves \<open>theme-<checksum>.less\<close> on the disk,
  and a second \<open>Cache.write\<close> of \<open>theme.less\<close> with another source leaves two
  checksum-suffixed artifacts.
\<close>

theorem remove_other_extension_counterexample:
  "Cache_remove public_cache less_disk ''theme.less'' = Inr less_disk
   \<and> Cache_write ascii_codec public_cache md5_ab [] ''theme.less'' ''a'' (Text ''compiled a'')
        = Inr less_disk
   \<and> Cache_write ascii_codec public_cache md5_ab less_disk ''theme.less'' ''b'' (Text ''compiled b'')
        = Inr less_disk2
   \<and> exists less_disk2 (path_join (dest public_cache)
         (replace_RE_EXT (\<lambda>ext. ''-'' @ md5_ab ''a'' @ ext) ''theme.less''))
   \<and> exists less_disk2 (path_join (dest public_cache)
         (replace_RE_EXT (\<lambda>ext. ''-'' @ md5_ab ''b'' @ ext) ''theme.less''))
   \<and> md5_ab ''a'' \<noteq> md5_ab ''b''"
  by code_simp

text \<open>
  C6, amended. On a disk where every entry lies in an existing directory and with a
  non-empty \<open>dest\<close>: \<open>Cache.remove(id)\<close> changes nothing when the directory of \<open>id\<close> is
  absent; when it returns, no entry is left in that directory whose name, with a
  32-digit checksum suffix before \<open>.js\<close> or \<open>.css\<close> stripped, is the base name of \<open>id\<close>;
  and after a successful \<open>Cache.write(id, source, content)\<close> for a relative \<open>id\<close> ending
  in \<open>.js\<close> or \<open>.css\<close>, with a checksum of 32 hexadecimal digits, the artifact of
  \<open>source\<close> exists and it is the only checksum-suffixed artifact of \<open>id\<close>.
\<close>

theorem remove_clears_js_css_variants:
  assumes "wf_fs disk" and "dest c \<noteq> []"
  shows "(\<not> exists disk (path_join (dest c) (dirname id')) \<longrightarrow> Cache_remove c disk id' = Inr disk)
     \<and> (Cache_remove c disk id' = Inr disk1 \<longrightarrow>
          (\<forall>e. CHR ''/'' \<notin> set e \<and> e \<noteq> ''.'' \<and> strip_checksum e = basename id' \<longrightarrow>
               \<not> exists disk1 (path_join (path_join (dest c) (dirname id')) e)))
     \<and> (relative_path id' \<and> (ends_with ''.js'' id' \<or> ends_with ''.css'' id')
          \<and> length (md5 source) = 32 \<and> list_all is_hex (md5 source)
          \<and> Cache_write K c md5 disk id' source content = Inr disk' \<longrightarrow>
          exists disk' (path_join (dest c)
                         (replace_RE_EXT (\<lambda>ext. ''-'' @ md5 source @ ext) id'))
          \<and> (\<forall>h. length h = 32 \<and> list_all is_hex h
                   \<and> exists disk' (path_join (dest c)
                                    (replace_RE_EXT (\<lambda>ext. ''-'' @ h @ ext) id'))
                 \<longrightarrow> h = md5 source))"
proof (intro conjI impI allI)
  assume "\<not> exists disk (path_join (dest c) (dirname id'))"
  then show "Cache_remove c disk id' = Inr disk" by (simp add: Cache_remove_def Let_def)
next
  fix e
  assume "Cache_remove c disk id' = Inr disk1"
    and "CHR ''/'' \<notin> set e \<and> e \<noteq> ''.'' \<and> strip_checksum e = basename id'"
  then show "\<not> exists disk1 (path_join (path_join (dest c) (dirname id')) e)"
    using Cache_remove_gone [OF assms, of id' disk1 e] by blast
next
  assume a: "relative_path id' \<and> (ends_with ''.js'' id' \<or> ends_with ''.css'' id')
          \<and> length (md5 source) = 32 \<and> list_all is_hex (md5 source)
          \<and> Cache_write K c md5 disk id' source content = Inr disk'"
  then show "exists disk' (path_join (dest c)
                         (replace_RE_EXT (\<lambda>ext. ''-'' @ md5 source @ ext) id'))"
    using write_stores_artifact [of K c md5 disk id' source content disk']
    by (simp add: exists_def)
next
  fix h
  assume a: "relative_path id' \<and> (ends_with ''.js'' id' \<or> ends_with ''.css'' id')
          \<and> length (md5 source) = 32 \<and> list_all is_hex (md5 source)
          \<and> Cache_write K c md5 disk id' source content = Inr disk'"
    and h: "length h = 32 \<and> list_all is_hex h
                   \<and> exists disk' (path_join (dest c)
                                    (replace_RE_EXT (\<lambda>ext. ''-'' @ h @ ext) id'))"
  from a obtain ext where ext: "ext = ''.js'' \<or> ext = ''.css''" "ends_with ext id'" by blast
  from ends_with_split [OF ext(2)] obtain t where t: "id' = t @ ext" by blast
  from write_leaves_one_artifact [OF assms _ ext(1) t, of md5 source K content disk' h] a h
  show "h = md5 source" by blast
qed

theorem remove_clears_js_css_variants_witness:
  "wf_fs disk_a \<and> dest public_cache \<noteq> []
   \<and> relative_path ''yen/1.2.4/index.js'' \<and> ends_with ''.js'' ''yen/1.2.4/index.js''
   \<and> length (md5_ab ''b'') = 32 \<and> list_all is_hex (md5_ab ''b'')
   \<and> Cache_write ascii_codec public_cache md5_ab disk_a ''yen/1.2.4/index.js'' ''b''
        (Text ''compiled b'') = Inr disk_b
   \<and> exists disk_a (path_join (dest public_cache)
         (replace_RE_EXT (\<lambda>ext. ''-'' @ md5_ab ''a'' @ ext) ''yen/1.2.4/index.js''))
   \<and> exists disk_b (path_join (dest public_cache)
         (replace_RE_EXT (\<lambda>ext. ''-'' @ md5_ab ''b'' @ ext) ''yen/1.2.4/index.js''))
   \<and> length (md5_ab ''a'') = 32 \<and> list_all is_hex (md5_ab ''a'')
   \<and> \<not> exists disk_b (path_join (dest public_cache)
         (replace_RE_EXT (\<lambda>ext. ''-'' @ md5_ab ''a'' @ ext) ''yen/1.2.4/index.js''))
   \<and> \<not> exists disk_a (path_join (dest public_cache) (dirname ''zepto/1.1.6/index.js''))
   \<and> Cache_remove public_cache disk_a ''zepto/1.1.6/index.js'' = Inr disk_a"
proof -
  have wf: "wf_fs disk_a" by code_simp
  have d: "dest public_cache \<noteq> []" by code_simp
  have hyp: "relative_path ''yen/1.2.4/index.js'' \<and> ends_with ''.js'' ''yen/1.2.4/index.js''
      \<and> length (md5_ab ''b'') = 32 \<and> list_all is_hex (md5_ab ''b'')
      \<and> Cache_write ascii_codec public_cache md5_ab disk_a ''yen/1.2.4/index.js'' ''b''
          (Text ''compiled b'') = Inr disk_b"
    by code_simp
  have a: "exists disk_a (path_join (dest public_cache)
         (replace_RE_EXT (\<lambda>ext. ''-'' @ md5_ab ''a'' @ ext) ''yen/1.2.4/index.js''))
      \<and> length (md5_ab ''a'') = 32 \<and> list_all is_hex (md5_ab ''a'')"
    by code_simp
  have ne: "md5_ab ''a'' \<noteq> md5_ab ''b''" by code_simp
  have nz: "\<not> exists disk_a (path_join (dest public_cache) (dirname ''zepto/1.1.6/index.js''))"
    by code_simp
  from remove_clears_js_css_variants [OF wf d, where id' = "''zepto/1.1.6/index.js''"
      and ?disk1.0 = disk_a] nz
  have z: "Cache_remove public_cache disk_a ''zepto/1.1.6/index.js'' = Inr disk_a" by blast
  from remove_clears_js_css_variants [OF wf d, where id' = "''yen/1.2.4/index.js''"
      and ?md5.0 = md5_ab and source = "''b''" and K = ascii_codec
      and content = "Text ''compiled b''" and disk' = disk_b] hyp
  have one: "exists disk_b (path_join (dest public_cache)
         (replace_RE_EXT (\<lambda>ext. ''-'' @ md5_ab ''b'' @ ext) ''yen/1.2.4/index.js''))
   \<and> (\<forall>h. length h = 32 \<and> list_all is_hex h
            \<and> exists disk_b (path_join (dest public_cache)
                 (replace_RE_EXT (\<lambda>ext. ''-'' @ h @ ext) ''yen/1.2.4/index.js''))
          \<longrightarrow> h = md5_ab ''b'')"
    by blast
  with a ne have gone: "\<not> exists disk_b (path_join (dest public_cache)
         (replace_RE_EXT (\<lambda>ext. ''-'' @ md5_ab ''a'' @ ext) ''yen/1.2.4/index.js''))"
    by blast
  from wf d hyp a one gone nz z show ?thesis by blast
qed

section \<open>Properties of the bundle engine\<close>

lemma grows_refl: "grows st st"
  by (auto simp: grows_def intro: exI [of _ "[]"])

lemma grows_trans:
  assumes "grows st st1" "grows st1 st2"
  shows "grows st st2"
proof -
  from assms(1) obtain d1 where d1: "body (toplevel st1) = body (toplevel st) @ map mk_def d1"
    "ids st1 = rev (map fst d1) @ ids st" "set (map fst d1) \<inter> set (ids st) = {}"
    "distinct (map fst d1)" unfolding grows_def by blast
  from assms(2) obtain d2 where d2: "body (toplevel st2) = body (toplevel st1) @ map mk_def d2"
    "ids st2 = rev (map fst d2) @ ids st1" "set (map fst d2) \<inter> set (ids st1) = {}"
    "distinct (map fst d2)" unfolding grows_def by blast
  have "body (toplevel st2) = body (toplevel st) @ map mk_def (d1 @ d2)" using d1(1) d2(1) by simp
  moreover have "ids st2 = rev (map fst (d1 @ d2)) @ ids st" using d1(2) d2(2) by simp
  moreover have "set (map fst (d1 @ d2)) \<inter> set (ids st) = {}" using d1(2,3) d2(3) by auto
  moreover have "distinct (map fst (d1 @ d2))" using d1(2,4) d2(3,4) by auto
  ultimately show ?thesis unfolding grows_def by blast
qed

lemma grows_fields:
  "ids a = ids b \<Longrightarrow> toplevel a = toplevel b \<Longrightarrow> grows a st' = grows b st'"
  "ids a = ids b \<Longrightarrow> toplevel a = toplevel b \<Longrightarrow> grows st a = grows st b"
  by (simp_all add: grows_def)

lemma appended_grows: "appended i st st' \<Longrightarrow> grows st st'"
proof -
  assume "appended i st st'"
  then obtain deps code defs where
    a: "body (toplevel st') = body (toplevel st) @ Define i deps code # map mk_def defs"
    "ids st' = rev (map fst defs) @ i # ids st"
    "set (map fst defs) \<inter> set (i # ids st) = {}" "distinct (map fst defs)"
    "i \<notin> set (ids st)"
    unfolding appended_def by blast
  let ?d = "(i, deps, code) # defs"
  have "body (toplevel st') = body (toplevel st) @ map mk_def ?d" using a(1) by (simp add: mk_def_def)
  moreover have "ids st' = rev (map fst ?d) @ ids st" using a(2) by simp
  moreover have "set (map fst ?d) \<inter> set (ids st) = {}" using a(3,5) by auto
  moreover have "distinct (map fst ?d)" using a(3,4) by auto
  ultimately show ?thesis unfolding grows_def by blast
qed

lemma grows_appended:
  assumes "grows (st\<lparr>ids := i # ids st, toplevel := Some (body (toplevel st) @ [Define i deps code])\<rparr>) st'"
    and "i \<notin> set (ids st)"
  shows "appended i st st'"
proof -
  from assms(1) obtain defs where
    d: "body (toplevel st') = (body (toplevel st) @ [Define i deps code]) @ map mk_def defs"
    "ids st' = rev (map fst defs) @ i # ids st"
    "set (map fst defs) \<inter> set (i # ids st) = {}" "distinct (map fst defs)"
    unfolding grows_def by (auto simp: body_def)
  then show ?thesis using assms(2) unfolding appended_def by auto
qed

lemma bundle_grows:
  "append n E C id' d f st = Some (Inr st') \<Longrightarrow>
     (id' \<in> set (ids st) \<and> st' = st) \<or> appended id' st st'"
  "satisfy n E C id' m deps st = Some (Inr st') \<Longrightarrow> grows st st'"
  "appendModule n E C name st = Some (Inr st') \<Longrightarrow> grows st st'"
  "bundle' n E C main' d f st = Some (Inr st') \<Longrightarrow> grows st st'"
proof (induction n E C id' d f st and n E C id' m deps st and n E C name st
    and n E C main' d f st arbitrary: st' and st' and st' and st'
    rule: append_satisfy_appendModule_bundle'.induct)
  case (1 n E C id' dependencies' factory st)
  show ?case
  proof (cases "id' \<in> set (ids st)")
    case True
    with 1(2) show ?thesis by (simp add: append.simps)
  next
    case False
    with 1(2) obtain k m deps code where k: "n = Suc k"
      and l: "load E C id' dependencies' factory = Inr (m, deps, code)"
      and s: "satisfy k E C id' m deps
            (st\<lparr>ids := id' # ids st,
                toplevel := Some (body (toplevel st) @ [Define id' deps code])\<rparr>) = Some (Inr st')"
      by (auto simp: append.simps split: nat.splits sum.splits)
    from 1(1) [OF False k l refl refl s] have "grows (st\<lparr>ids := id' # ids st,
                toplevel := Some (body (toplevel st) @ [Define id' deps code])\<rparr>) st'" by simp
    from grows_appended [OF this False] show ?thesis by simp
  qed
next
  case (2 n E C id' m st)
  then show ?case by (simp add: grows_refl)
next
  case (3 n E C id' m dep rest st)
  let ?step = "case classify E C id' m dep of
              Relative file \<Rightarrow> append n E C file None None st
            | Sibling file \<Rightarrow> append n E C file None None st
            | Package name \<Rightarrow>
                (case appendModule n E C name (st\<lparr>route := route st @ [name]\<rparr>) of
                   Some (Inr st') \<Rightarrow> Some (Inr (st'\<lparr>route := butlast (route st')\<rparr>))
                 | r \<Rightarrow> r)
            | Unresolved \<Rightarrow> Some (Inr st)"
  from 3(5) obtain st1 where step: "?step = Some (Inr st1)"
    and rest: "satisfy n E C id' m rest st1 = Some (Inr st')"
    by (auto simp: satisfy.simps(2) split: option.splits sum.splits)
  have g1: "grows st st1"
  proof (cases "classify E C id' m dep")
    case (Relative t)
    with step have "append n E C t None None st = Some (Inr st1)" by simp
    from 3(1) [OF Relative this] show ?thesis by (auto simp: grows_refl appended_grows)
  next
    case (Sibling t)
    with step have "append n E C t None None st = Some (Inr st1)" by simp
    from 3(2) [OF Sibling this] show ?thesis by (auto simp: grows_refl appended_grows)
  next
    case (Package name)
    with step obtain st2 where a: "appendModule n E C name (st\<lparr>route := route st @ [name]\<rparr>)
        = Some (Inr st2)" and e: "st1 = st2\<lparr>route := butlast (route st2)\<rparr>"
      by (auto split: option.splits sum.splits)
    from 3(3) [OF Package a] have "grows (st\<lparr>route := route st @ [name]\<rparr>) st2" .
    then show ?thesis unfolding e by (simp add: grows_def)
  next
    case Unresolved
    with step show ?thesis by (simp add: grows_refl)
  qed
  from 3(4) [OF step refl rest] have "grows st1 st'" .
  with g1 show ?case by (rule grows_trans)
next
  case (4 n E C name st)
  from 4(2) obtain C' main' st1 where l: "locate C name st = Inr (C', main', st1)"
    and b: "bundle' n E C' main' None None st1 = Some (Inr st')"
    by (auto simp: appendModule.simps split: sum.splits)
  from 4(1) [OF l refl refl b] have g: "grows st1 st'" by simp
  from l have "ids st1 = ids st" "toplevel st1 = toplevel st"
    by (auto simp: locate_def split: option.splits sum.splits jsval.splits if_splits)
  with g show ?case by (simp add: grows_def)
next
  case (5 n E C main' dependencies' factory st)
  from 5(2) have "append n E C main' dependencies' factory st = Some (Inr st')" by simp
  from 5(1) [OF this] show ?case by (auto simp: grows_refl appended_grows)
qed

lemma chain_run:
  "chain E C d f xs \<Longrightarrow> distinct (map fst xs) \<Longrightarrow> set (map fst xs) \<inter> set (ids st) = {}
     \<Longrightarrow> length xs \<le> n \<Longrightarrow>
   append n E C (fst (hd xs)) d f st =
     Some (Inr (st\<lparr>ids := rev (map fst xs) @ ids st,
                    toplevel := Some (body (toplevel st) @ map mk_def xs)\<rparr>))"
proof (induction E C d f xs arbitrary: n st rule: chain.induct)
  case (1 E C d f)
  then show ?case by simp
next
  case (2 E C d f i deps code)
  from 2(4) obtain k where k: "n = Suc k" by (cases n) auto
  from 2 k show ?case by (simp add: append.simps mk_def_def)
next
  case (3 E C d f i deps code j r rest)
  from 3(5) obtain k where k: "n = Suc k" "length ((j, r) # rest) \<le> k" by (cases n) auto
  from 3(2) obtain dep where l: "load E C i d f = Inr (parseId E i, [dep], code)"
    and deps: "deps = [dep]"
    and c: "classify E C i (parseId E i) dep = Relative j
            \<or> classify E C i (parseId E i) dep = Sibling j"
    and ch: "chain E C None None ((j, r) # rest)"
    by (auto split: list.splits)
  let ?st1 = "st\<lparr>ids := i # ids st, toplevel := Some (body (toplevel st) @ [Define i [dep] code])\<rparr>"
  have d: "distinct (map fst ((j, r) # rest))" using 3(3) by simp
  have dis: "set (map fst ((j, r) # rest)) \<inter> set (ids ?st1) = {}" using 3(3,4) by auto
  from 3(1) [OF ch d dis k(2)]
  have inner: "append k E C j None None ?st1 =
      Some (Inr (?st1\<lparr>ids := rev (map fst ((j, r) # rest)) @ ids ?st1,
                      toplevel := Some (body (toplevel ?st1) @ map mk_def ((j, r) # rest))\<rparr>))"
    by simp
  have i: "i \<notin> set (ids st)" using 3(4) by simp
  have sat: "satisfy k E C i (parseId E i) [dep] ?st1 =
      Some (Inr (?st1\<lparr>ids := rev (map fst ((j, r) # rest)) @ ids ?st1,
                      toplevel := Some (body (toplevel ?st1) @ map mk_def ((j, r) # rest))\<rparr>))"
    using c inner by (auto simp: satisfy.simps(2))
  have step: "append n E C i d f st = satisfy k E C i (parseId E i) [dep] ?st1"
    unfolding k(1) by (subst append.simps) (simp add: i l)
  have eq: "?st1\<lparr>ids := rev (map fst ((j, r) # rest)) @ ids ?st1,
                toplevel := Some (body (toplevel ?st1) @ map mk_def ((j, r) # rest))\<rparr>
      = st\<lparr>ids := rev (map fst ((i, deps, code) # (j, r) # rest)) @ ids st,
            toplevel := Some (body (toplevel st) @ map mk_def ((i, deps, code) # (j, r) # rest))\<rparr>"
    by (simp add: body_def mk_def_def deps)
  show ?case using step sat eq by simp
qed

lemma satisfy_split:
  "satisfy n E C i m (pre @ rest) st = Some (Inr st') \<Longrightarrow>
     \<exists>s. satisfy n E C i m pre st = Some (Inr s) \<and> satisfy n E C i m rest s = Some (Inr st')"
proof (induction pre arbitrary: st)
  case Nil
  then show ?case by simp
next
  case (Cons dep pre)
  let ?step = "case classify E C i m dep of
              Relative file \<Rightarrow> append n E C file None None st
            | Sibling file \<Rightarrow> append n E C file None None st
            | Package name \<Rightarrow>
                (case appendModule n E C name (st\<lparr>route := route st @ [name]\<rparr>) of
                   Some (Inr st') \<Rightarrow> Some (Inr (st'\<lparr>route := butlast (route st')\<rparr>))
                 | r \<Rightarrow> r)
            | Unresolved \<Rightarrow> Some (Inr st)"
  from Cons.prems obtain st1 where step: "?step = Some (Inr st1)"
    and rest: "satisfy n E C i m (pre @ rest) st1 = Some (Inr st')"
    by (auto simp: satisfy.simps(2) split: option.splits sum.splits)
  from Cons.IH [OF rest] obtain s where s: "satisfy n E C i m pre st1 = Some (Inr s)"
    "satisfy n E C i m rest s = Some (Inr st')" by blast
  have "satisfy n E C i m (dep # pre) st = Some (Inr s)"
    by (subst satisfy.simps(2)) (simp add: step s(1))
  with s(2) show ?case by blast
qed

lemma locate_fields:
  "locate C name st = Inr (C', j, s') \<Longrightarrow> ids s' = ids st \<and> toplevel s' = toplevel st"
  by (auto simp: locate_def split: option.splits sum.splits jsval.splits if_splits)

lemma through_run_path:
  assumes new: "i \<notin> set (ids st)"
    and l: "load E C i d f = Inr (m, pre @ dep # post, code)"
    and p: "satisfy k E C i m pre
       (st\<lparr>ids := i # ids st,
           toplevel := Some (body (toplevel st) @ [Define i (pre @ dep # post) code])\<rparr>)
       = Some (Inr s)"
    and c: "classify E C i m dep = Relative j \<or> classify E C i m dep = Sibling j"
    and r: "append (Suc k) E C i d f st = Some (Inr st')"
  shows "\<exists>s'. append k E C j None None s = Some (Inr s') \<and> appended i st s \<and> grows s' st'"
proof -
  let ?deps = "pre @ dep # post"
  let ?st1 = "st\<lparr>ids := i # ids st, toplevel := Some (body (toplevel st) @ [Define i ?deps code])\<rparr>"
  from r new l have sat: "satisfy k E C i m ?deps ?st1 = Some (Inr st')"
    by (simp add: append.simps)
  from satisfy_split [OF sat] p have
    tl: "satisfy k E C i m (dep # post) s = Some (Inr st')" by auto
  from c tl obtain s' where a: "append k E C j None None s = Some (Inr s')"
    and q: "satisfy k E C i m post s' = Some (Inr st')"
    by (auto simp: satisfy.simps(2) split: option.splits sum.splits)
  from bundle_grows(2) [OF p] have "grows ?st1 s" .
  from grows_appended [OF this new] have "appended i st s" .
  moreover from bundle_grows(2) [OF q] have "grows s' st'" .
  ultimately show ?thesis using a by blast
qed

lemma through_run_package:
  assumes new: "i \<notin> set (ids st)"
    and l: "load E C i d f = Inr (m, pre @ dep # post, code)"
    and p: "satisfy k E C i m pre
       (st\<lparr>ids := i # ids st,
           toplevel := Some (body (toplevel st) @ [Define i (pre @ dep # post) code])\<rparr>)
       = Some (Inr s0)"
    and c: "classify E C i m dep = Package name"
    and lo: "locate C name (s0\<lparr>route := route s0 @ [name]\<rparr>) = Inr (C', j, s)"
    and r: "append (Suc k) E C i d f st = Some (Inr st')"
  shows "\<exists>s'. append k E C' j None None s = Some (Inr s') \<and> appended i st s \<and> grows s' st'"
proof -
  let ?deps = "pre @ dep # post"
  let ?st1 = "st\<lparr>ids := i # ids st, toplevel := Some (body (toplevel st) @ [Define i ?deps code])\<rparr>"
  from r new l have sat: "satisfy k E C i m ?deps ?st1 = Some (Inr st')"
    by (simp add: append.simps)
  from satisfy_split [OF sat] p have
    tl: "satisfy k E C i m (dep # post) s0 = Some (Inr st')" by auto
  from c tl obtain s2 where
    am: "appendModule k E C name (s0\<lparr>route := route s0 @ [name]\<rparr>) = Some (Inr s2)"
    and q: "satisfy k E C i m post (s2\<lparr>route := butlast (route s2)\<rparr>) = Some (Inr st')"
    by (auto simp: satisfy.simps(2) split: option.splits sum.splits)
  from am lo have a: "append k E C' j None None s = Some (Inr s2)"
    by (simp add: appendModule.simps)
  from bundle_grows(2) [OF p] have "grows ?st1 s0" .
  from grows_appended [OF this new] have "appended i st s0" .
  with locate_fields [OF lo] have "appended i st s" by (simp add: appended_def)
  moreover from bundle_grows(2) [OF q] have "grows s2 st'" by (simp add: grows_def)
  ultimately show ?thesis using a by blast
qed

lemma through_run:
  assumes t: "through E (n, C, i, d, f, st) (k, C', j, d', f', s)"
    and r: "append n E C i d f st = Some (Inr st')"
  shows "\<exists>s'. append k E C' j d' f' s = Some (Inr s') \<and> appended i st s \<and> grows s' st'"
  using t
proof (cases rule: through.cases)
  case (by_path m pre dep post code)
  with r through_run_path [of i st E C d f m pre dep post code k s j st'] show ?thesis by blast
next
  case (by_package m pre dep post code s0 name)
  with r through_run_package [of i st E C d f m pre dep post code k s0 name C' j s st']
  show ?thesis by blast
qed

lemma appended_then_grows:
  assumes "appended i st s" "grows s s'"
  shows "appended i st s'"
proof -
  from assms(1) obtain deps code d1 where
    a: "body (toplevel s) = body (toplevel st) @ Define i deps code # map mk_def d1"
    "ids s = rev (map fst d1) @ i # ids st" "i \<notin> set (ids st)"
    "set (map fst d1) \<inter> set (i # ids st) = {}" "distinct (map fst d1)"
    unfolding appended_def by blast
  from assms(2) obtain d2 where
    g: "body (toplevel s') = body (toplevel s) @ map mk_def d2"
    "ids s' = rev (map fst d2) @ ids s" "set (map fst d2) \<inter> set (ids s) = {}"
    "distinct (map fst d2)"
    unfolding grows_def by blast
  have "body (toplevel s') = body (toplevel st) @ Define i deps code # map mk_def (d1 @ d2)"
    using a(1) g(1) by simp
  moreover have "ids s' = rev (map fst (d1 @ d2)) @ i # ids st" using a(2) g(2) by simp
  moreover have "set (map fst (d1 @ d2)) \<inter> set (i # ids st) = {}" using a(2,4) g(3) by auto
  moreover have "distinct (map fst (d1 @ d2))" using a(2,5) g(3,4) by auto
  ultimately show ?thesis using a(3) unfolding appended_def by blast
qed

lemma through_new: "through E (n, C, i, d, f, st) c \<Longrightarrow> i \<notin> set (ids st)"
  by (auto elim: through.cases)

lemma included_run:
  assumes "(through E)\<^sup>+\<^sup>+ p c"
  shows "\<And>n C i d f st k C' j d' f' s st'.
     p = (n, C, i, d, f, st) \<Longrightarrow> c = (k, C', j, d', f', s) \<Longrightarrow>
     append n E C i d f st = Some (Inr st') \<Longrightarrow>
     \<exists>s'. append k E C' j d' f' s = Some (Inr s') \<and> appended i st s \<and> grows s' st'"
  using assms
proof (induction rule: tranclp_induct)
  case (base y)
  from through_run [OF base(1) [unfolded base(2,3)] base(4)] show ?case .
next
  case (step y z)
  obtain k1 C1 j1 d1 f1 s1 where y: "y = (k1, C1, j1, d1, f1, s1)" by (cases y) auto
  from step(3) [OF step(4) y step(6)] obtain s1' where
    1: "append k1 E C1 j1 d1 f1 s1 = Some (Inr s1')" "appended i st s1" "grows s1' st'" by blast
  from through_run [OF step(2) [unfolded y step(5)] 1(1)] obtain s' where
    2: "append k E C' j d' f' s = Some (Inr s')" "appended j1 s1 s" "grows s' s1'" by blast
  from appended_then_grows [OF 1(2) appended_grows [OF 2(2)]] have "appended i st s" .
  moreover from grows_trans [OF 2(3) 1(3)] have "grows s' st'" .
  ultimately show ?case using 2(1) by blast
qed

lemma order_of_inclusion:
  assumes r: "append n E C i d f st = Some (Inr st')"
    and t: "(through E)\<^sup>+\<^sup>+ (n, C, i, d, f, st) (k, C', j, d', f', s)"
    and new: "j \<notin> set (ids s)"
  shows "\<exists>deps code mid deps' code' post.
      body (toplevel st') =
        body (toplevel st) @ map mk_def ((i, deps, code) # mid @ (j, deps', code') # post)
      \<and> ids st' = rev (map fst ((i, deps, code) # mid @ (j, deps', code') # post)) @ ids st
      \<and> distinct (map fst ((i, deps, code) # mid @ (j, deps', code') # post))
      \<and> set (map fst ((i, deps, code) # mid @ (j, deps', code') # post)) \<inter> set (ids st) = {}"
proof -
  from included_run [OF t refl refl r] obtain s' where
    a: "append k E C' j d' f' s = Some (Inr s')" and i: "appended i st s" and g: "grows s' st'"
    by blast
  from bundle_grows(1) [OF a] new have j: "appended j s s'" by blast
  from i obtain deps code d1 where
    1: "body (toplevel s) = body (toplevel st) @ Define i deps code # map mk_def d1"
    "ids s = rev (map fst d1) @ i # ids st" "i \<notin> set (ids st)"
    "set (map fst d1) \<inter> set (i # ids st) = {}" "distinct (map fst d1)"
    unfolding appended_def by blast
  from j obtain deps' code' d2 where
    2: "body (toplevel s') = body (toplevel s) @ Define j deps' code' # map mk_def d2"
    "ids s' = rev (map fst d2) @ j # ids s" "j \<notin> set (ids s)"
    "set (map fst d2) \<inter> set (j # ids s) = {}" "distinct (map fst d2)"
    unfolding appended_def by blast
  from g obtain d3 where
    3: "body (toplevel st') = body (toplevel s') @ map mk_def d3"
    "ids st' = rev (map fst d3) @ ids s'" "set (map fst d3) \<inter> set (ids s') = {}"
    "distinct (map fst d3)"
    unfolding grows_def by blast
  let ?all = "(i, deps, code) # d1 @ (j, deps', code') # (d2 @ d3)"
  have "body (toplevel st') = body (toplevel st) @ map mk_def ?all"
    using 1(1) 2(1) 3(1) by (simp add: mk_def_def)
  moreover have "ids st' = rev (map fst ?all) @ ids st" using 1(2) 2(2) 3(2) by simp
  moreover have "distinct (map fst ?all)"
    using 1(2,4,5) 2(2,3,4,5) 3(2,3,4) by auto
  moreover have "set (map fst ?all) \<inter> set (ids st) = {}"
    using 1(2,3,4) 2(2,3,4) 3(2,3) by auto
  ultimately show ?thesis by blast
qed

lemma order_below:
  assumes r: "append n E C i d f st = Some (Inr st')"
    and pq: "(through E)\<^sup>*\<^sup>* (n, C, i, d, f, st) (k, C', j, d', f', s)"
    and qc: "(through E)\<^sup>+\<^sup>+ (k, C', j, d', f', s) (k2, C2, j2, d2, f2, s2)"
    and new: "j2 \<notin> set (ids s2)"
  shows "\<exists>pre deps code mid deps' code' post.
      body (toplevel st') =
        body (toplevel st)
          @ map mk_def (pre @ (j, deps, code) # mid @ (j2, deps', code') # post)
      \<and> ids st' = rev (map fst (pre @ (j, deps, code) # mid @ (j2, deps', code') # post)) @ ids st
      \<and> distinct (map fst (pre @ (j, deps, code) # mid @ (j2, deps', code') # post))"
proof -
  from rtranclpD [where R = "through E", OF pq]
  have "(n, C, i, d, f, st) = (k, C', j, d', f', s)
      \<or> (through E)\<^sup>+\<^sup>+ (n, C, i, d, f, st) (k, C', j, d', f', s)"
    by blast
  then show ?thesis
  proof
    assume "(n, C, i, d, f, st) = (k, C', j, d', f', s)"
    with r have r': "append k E C' j d' f' s = Some (Inr st')" and e: "st = s" by simp_all
    from order_of_inclusion [OF r' qc new] obtain deps code mid deps' code' post where
      "body (toplevel st') =
         body (toplevel s) @ map mk_def ([] @ (j, deps, code) # mid @ (j2, deps', code') # post)
       \<and> ids st' = rev (map fst ([] @ (j, deps, code) # mid @ (j2, deps', code') # post)) @ ids s
       \<and> distinct (map fst ([] @ (j, deps, code) # mid @ (j2, deps', code') # post))"
      by auto
    then show ?thesis unfolding e by blast
  next
    assume tr: "(through E)\<^sup>+\<^sup>+ (n, C, i, d, f, st) (k, C', j, d', f', s)"
    from included_run [OF tr refl refl r] obtain s' where
      a: "append k E C' j d' f' s = Some (Inr s')" and i: "appended i st s" and g: "grows s' st'"
      by blast
    from order_of_inclusion [OF a qc new] obtain deps code mid deps' code' post where
      2: "body (toplevel s') =
         body (toplevel s) @ map mk_def ((j, deps, code) # mid @ (j2, deps', code') # post)"
       "ids s' = rev (map fst ((j, deps, code) # mid @ (j2, deps', code') # post)) @ ids s"
       "distinct (map fst ((j, deps, code) # mid @ (j2, deps', code') # post))"
       "set (map fst ((j, deps, code) # mid @ (j2, deps', code') # post)) \<inter> set (ids s) = {}"
      by blast
    from i obtain depsi codei d1 where
      1: "body (toplevel s) = body (toplevel st) @ Define i depsi codei # map mk_def d1"
      "ids s = rev (map fst d1) @ i # ids st" "i \<notin> set (ids st)"
      "set (map fst d1) \<inter> set (i # ids st) = {}" "distinct (map fst d1)"
      unfolding appended_def by blast
    from g obtain d3 where
      3: "body (toplevel st') = body (toplevel s') @ map mk_def d3"
      "ids st' = rev (map fst d3) @ ids s'" "set (map fst d3) \<inter> set (ids s') = {}"
      "distinct (map fst d3)"
      unfolding grows_def by blast
    let ?pre = "(i, depsi, codei) # d1"
    let ?all = "?pre @ (j, deps, code) # mid @ (j2, deps', code') # (post @ d3)"
    have "body (toplevel st') = body (toplevel st) @ map mk_def ?all"
      using 1(1) 2(1) 3(1) by (simp add: mk_def_def)
    moreover have "ids st' = rev (map fst ?all) @ ids st" using 1(2) 2(2) 3(2) by simp
    moreover have "distinct (map fst ?all)"
      using 1(2,4,5) 2(2,3,4) 3(2,3,4) by auto
    ultimately show ?thesis by blast
  qed
qed

lemma count_list_distinct: "distinct xs \<Longrightarrow> x \<in> set xs \<Longrightarrow> count_list xs x = 1"
  by (induction xs) (auto simp: count_list_0_iff)

subsection \<open>The bundle of the example site\<close>

lemma page_through_editor:
  "through site_env (3, site, ''app/1.0.0/page'', None, None, site_start)
     (2, site_packages, ''ez-editor/0.2.4/index'', None, None, at_editor)"
proof -
  have "through site_env (Suc 2, site, ''app/1.0.0/page'', None, None, site_start)
      (2, site_packages, ''ez-editor/0.2.4/index'', None, None, at_editor)"
  proof (rule through.by_package [where m = "parse_plain_id ''app/1.0.0/page''"
        and pre = "[''./header'']" and dep = "''ez-editor''" and post = "[]"
        and code = "''require('./header'); require('ez-editor')''" and s = after_header
        and name = "''ez-editor''"])
    show "''app/1.0.0/page'' \<notin> set (ids site_start)" by code_simp
    show "load site_env site ''app/1.0.0/page'' None None =
      Inr (parse_plain_id ''app/1.0.0/page'', [''./header''] @ ''ez-editor'' # [],
           ''require('./header'); require('ez-editor')'')" by code_simp
    show "satisfy 2 site_env site ''app/1.0.0/page'' (parse_plain_id ''app/1.0.0/page'')
       [''./header'']
       (site_start\<lparr>ids := ''app/1.0.0/page'' # ids site_start,
           toplevel := Some (body (toplevel site_start)
              @ [Define ''app/1.0.0/page'' ([''./header''] @ ''ez-editor'' # [])
                   ''require('./header'); require('ez-editor')''])\<rparr>)
       = Some (Inr after_header)" by code_simp
    show "classify site_env site ''app/1.0.0/page'' (parse_plain_id ''app/1.0.0/page'')
       ''ez-editor'' = Package ''ez-editor''" by code_simp
    show "locate site ''ez-editor'' (after_header\<lparr>route := route after_header @ [''ez-editor'']\<rparr>)
       = Inr (site_packages, ''ez-editor/0.2.4/index'', at_editor)" by code_simp
  qed
  moreover have "(3::nat) = Suc 2" by simp
  ultimately show ?thesis by (simp only:)
qed

lemma editor_through_yen:
  "through site_env (2, site_packages, ''ez-editor/0.2.4/index'', None, None, at_editor)
     (1, site_packages, ''yen/1.2.4/index'', None, None, at_yen)"
proof -
  have "through site_env (Suc 1, site_packages, ''ez-editor/0.2.4/index'', None, None, at_editor)
      (1, site_packages, ''yen/1.2.4/index'', None, None, at_yen)"
  proof (rule through.by_package [where m = "parse_plain_id ''ez-editor/0.2.4/index''"
        and pre = "[]" and dep = "''yen''" and post = "[]"
        and code = "''require('yen')''" and s = editor_merged and name = "''yen''"])
    show "''ez-editor/0.2.4/index'' \<notin> set (ids at_editor)" by code_simp
    show "load site_env site_packages ''ez-editor/0.2.4/index'' None None =
      Inr (parse_plain_id ''ez-editor/0.2.4/index'', [] @ ''yen'' # [], ''require('yen')'')"
      by code_simp
    show "satisfy 1 site_env site_packages ''ez-editor/0.2.4/index''
       (parse_plain_id ''ez-editor/0.2.4/index'') []
       (at_editor\<lparr>ids := ''ez-editor/0.2.4/index'' # ids at_editor,
           toplevel := Some (body (toplevel at_editor)
              @ [Define ''ez-editor/0.2.4/index'' ([] @ ''yen'' # []) ''require('yen')''])\<rparr>)
       = Some (Inr editor_merged)" by code_simp
    show "classify site_env site_packages ''ez-editor/0.2.4/index''
       (parse_plain_id ''ez-editor/0.2.4/index'') ''yen'' = Package ''yen''" by code_simp
    show "locate site_packages ''yen'' (editor_merged\<lparr>route := route editor_merged @ [''yen'']\<rparr>)
       = Inr (site_packages, ''yen/1.2.4/index'', at_yen)" by code_simp
  qed
  moreover have "(2::nat) = Suc 1" by simp
  ultimately show ?thesis by (simp only:)
qed

lemma page_reaches_editor:
  "(through site_env)\<^sup>*\<^sup>* (3, site, ''app/1.0.0/page'', None, None, site_start)
     (2, site_packages, ''ez-editor/0.2.4/index'', None, None, at_editor)"
  by (rule r_into_rtranclp [where r = "through site_env", OF page_through_editor])

lemma editor_includes_yen:
  "(through site_env)\<^sup>+\<^sup>+
     (2, site_packages, ''ez-editor/0.2.4/index'', None, None, at_editor)
     (1, site_packages, ''yen/1.2.4/index'', None, None, at_yen)"
  by (rule tranclp.r_into_trancl [where r = "through site_env", OF editor_through_yen])

subsection \<open>Claims about the bundle engine\<close>

text \<open>
  C4. \<open>append\<close> with an id that is in \<open>ids\<close> returns at once and changes nothing,
  whatever the fuel; so once a call of \<open>append\<close> for an id has returned, any further
  \<open>append\<close> of that id, with whatever options and in whatever closure of the bundle, is a
  no-op. A top-level \<open>_bundle\<close> (one that starts with no ids) that returns has added to
  the aggregate exactly the wrapped definitions of the ids it collected, and exactly one
  for each of them.
\<close>

theorem append_idempotent:
  "(id' \<in> set (ids st) \<longrightarrow> append n E C id' d f st = Some (Inr st))
   \<and> (append n E C id' d f st = Some (Inr st') \<longrightarrow>
        append n2 E2 C2 id' d2 f2 st' = Some (Inr st'))
   \<and> (bundle' n E C main' d f st = Some (Inr st') \<and> ids st = [] \<longrightarrow>
        (\<exists>defs. body (toplevel st') = body (toplevel st) @ map mk_def defs
           \<and> ids st' = rev (map fst defs)
           \<and> (\<forall>i \<in> set (ids st'). count_list (map fst defs) i = 1)))"
proof (intro conjI impI)
  show "id' \<in> set (ids st) \<Longrightarrow> append n E C id' d f st = Some (Inr st)"
    by (simp add: append.simps)
next
  assume "append n E C id' d f st = Some (Inr st')"
  from bundle_grows(1) [OF this] have "id' \<in> set (ids st')"
    by (auto simp: appended_def)
  then show "append n2 E2 C2 id' d2 f2 st' = Some (Inr st')" by (simp add: append.simps)
next
  assume a: "bundle' n E C main' d f st = Some (Inr st') \<and> ids st = []"
  with bundle_grows(4) [of n E C main' d f st st'] obtain defs where
    defs: "body (toplevel st') = body (toplevel st) @ map mk_def defs"
    "ids st' = rev (map fst defs)" "distinct (map fst defs)"
    by (auto simp: grows_def)
  have "\<forall>i \<in> set (ids st'). count_list (map fst defs) i = 1"
    using defs(2,3) by (simp add: count_list_distinct)
  with defs show "\<exists>defs. body (toplevel st') = body (toplevel st) @ map mk_def defs
           \<and> ids st' = rev (map fst defs)
           \<and> (\<forall>i \<in> set (ids st'). count_list (map fst defs) i = 1)" by blast
qed

theorem append_idempotent_witness:
  "bundle' 3 app_env components ''app/1.0.0/a'' None None fresh_state = Some (Inr abc_bundled)
   \<and> ids fresh_state = []
   \<and> ''app/1.0.0/b'' \<in> set (ids abc_bundled)
   \<and> append 0 app_env components ''app/1.0.0/b'' None None abc_bundled = Some (Inr abc_bundled)
   \<and> append 3 app_env components ''app/1.0.0/a'' None None fresh_state = Some (Inr abc_bundled)
   \<and> append 7 app_env components_with_map ''app/1.0.0/a'' (Some []) (Some ''x'') abc_bundled
        = Some (Inr abc_bundled)
   \<and> (\<exists>defs. body (toplevel abc_bundled) = body (toplevel fresh_state) @ map mk_def defs
         \<and> ids abc_bundled = rev (map fst defs)
         \<and> (\<forall>i \<in> set (ids abc_bundled). count_list (map fst defs) i = 1))"
proof -
  have run: "bundle' 3 app_env components ''app/1.0.0/a'' None None fresh_state
      = Some (Inr abc_bundled)"
    by code_simp
  have run': "append 3 app_env components ''app/1.0.0/a'' None None fresh_state
      = Some (Inr abc_bundled)"
    using run by simp
  have e: "ids fresh_state = []" by (simp add: fresh_state_def)
  have b: "''app/1.0.0/b'' \<in> set (ids abc_bundled)" by (simp add: abc_bundled_def)
  note t = append_idempotent
  from t [of "''app/1.0.0/b''" abc_bundled 0 app_env components None None] b
  have 1: "append 0 app_env components ''app/1.0.0/b'' None None abc_bundled
      = Some (Inr abc_bundled)" by blast
  from t [of "''app/1.0.0/a''" fresh_state 3 app_env components None None abc_bundled
      7 app_env components_with_map "Some []" "Some ''x''"] run'
  have 2: "append 7 app_env components_with_map ''app/1.0.0/a'' (Some []) (Some ''x'') abc_bundled
        = Some (Inr abc_bundled)" by blast
  from t [of _ fresh_state 3 app_env components None None abc_bundled _ _ _ _ _ "''app/1.0.0/a''"]
    run e
  have 3: "\<exists>defs. body (toplevel abc_bundled) = body (toplevel fresh_state) @ map mk_def defs
         \<and> ids abc_bundled = rev (map fst defs)
         \<and> (\<forall>i \<in> set (ids abc_bundled). count_list (map fst defs) i = 1)" by blast
  from run e b 1 run' 2 3 show ?thesis by blast
qed

text \<open>
  C1, as the claim states it, fails. \<open>append\<close> merges the definition of a module into
  the aggregate before it calls \<open>satisfy\<close>, and \<open>UglifyJS.parse\<close> adds at the end of the
  toplevel. For the chain \<open>a\<close>, \<open>b\<close>, \<open>c\<close> the aggregate holds the definition of \<open>a\<close>, then
  \<open>b\<close>, then \<open>c\<close>; for the component \<open>main\<close> that requires the package \<open>yen\<close> it holds the
  definition of \<open>main\<close> before that of \<open>yen/1.2.4/index\<close>. It is the list \<open>ids\<close>, filled by
  \<open>unshift\<close>, that holds the dependency before the dependent.
\<close>

theorem bundle_order_counterexample:
  "bundle' 3 app_env components ''app/1.0.0/a'' None None fresh_state = Some (Inr abc_bundled)
   \<and> toplevel abc_bundled =
        Some [Define ''app/1.0.0/a'' [''./b''] ''require('./b')'',
              Define ''app/1.0.0/b'' [''./c''] ''require('./c')'',
              Define ''app/1.0.0/c'' [] ''exports.c = 1'']
   \<and> bundle' 2 app_env components_with_map ''app/1.0.0/main'' None None fresh_state_with_map
        = Some (Inr main_bundled)
   \<and> toplevel main_bundled =
        Some [Define ''app/1.0.0/main'' [''yen''] ''require('yen')'',
              Define ''yen/1.2.4/index'' [] ''module.exports = yen'']"
  by code_simp

text \<open>
  C1, amended. Whenever \<open>append\<close> includes a module (its id was not in \<open>ids\<close>) and
  returns, the aggregate is the one before the call, then the definition of the module,
  then the definitions merged during its \<open>satisfy\<close> step; \<open>ids\<close> holds the same ids in the
  opposite order. Take any call of \<open>append\<close> that returns, a call made at or below it
  for a module \<open>a\<close> (the call itself, or one reached at any depth through relative
  paths, siblings or packages), and a call made below that one which includes a module
  \<open>b\<close>, a dependency first included through \<open>a\<close>: the aggregate the outer call leaves
  holds the definition of \<open>a\<close> before the definition of \<open>b\<close>, every dependent before the
  dependencies first included through it, with each id defined once and \<open>ids\<close> in the
  opposite order. In particular, for a chain of modules of one package none of which is
  included yet, \<open>_bundle\<close> with fuel for each module returns, and it has added the
  definitions in the order of the chain.
\<close>

theorem dependent_before_dependencies:
  "(append n E C id' d f st = Some (Inr st') \<and> id' \<notin> set (ids st) \<longrightarrow>
      (\<exists>deps code defs.
          body (toplevel st') = body (toplevel st) @ Define id' deps code # map mk_def defs
          \<and> ids st' = rev (map fst defs) @ id' # ids st))
   \<and> (append n E C id' d f st = Some (Inr st')
        \<and> (through E)\<^sup>*\<^sup>* (n, C, id', d, f, st) (k1, C1, a, d1, f1, s1)
        \<and> (through E)\<^sup>+\<^sup>+ (k1, C1, a, d1, f1, s1) (k2, C2, b, d2, f2, s2)
        \<and> b \<notin> set (ids s2) \<longrightarrow>
      (\<exists>pre deps code mid deps' code' post.
          body (toplevel st') =
            body (toplevel st)
              @ map mk_def (pre @ (a, deps, code) # mid @ (b, deps', code') # post)
          \<and> ids st' =
              rev (map fst (pre @ (a, deps, code) # mid @ (b, deps', code') # post)) @ ids st
          \<and> distinct (map fst (pre @ (a, deps, code) # mid @ (b, deps', code') # post))))
   \<and> (chain E C d f xs \<and> distinct (map fst xs) \<and> set (map fst xs) \<inter> set (ids st) = {}
        \<and> length xs \<le> n \<longrightarrow>
      bundle' n E C (fst (hd xs)) d f st =
        Some (Inr (st\<lparr>ids := rev (map fst xs) @ ids st,
                       toplevel := Some (body (toplevel st) @ map mk_def xs)\<rparr>)))"
proof (intro conjI impI)
  assume "append n E C id' d f st = Some (Inr st') \<and> id' \<notin> set (ids st)"
  with bundle_grows(1) [of n E C id' d f st st'] have "appended id' st st'" by blast
  then show "\<exists>deps code defs.
          body (toplevel st') = body (toplevel st) @ Define id' deps code # map mk_def defs
          \<and> ids st' = rev (map fst defs) @ id' # ids st"
    unfolding appended_def by blast
next
  assume "append n E C id' d f st = Some (Inr st')
        \<and> (through E)\<^sup>*\<^sup>* (n, C, id', d, f, st) (k1, C1, a, d1, f1, s1)
        \<and> (through E)\<^sup>+\<^sup>+ (k1, C1, a, d1, f1, s1) (k2, C2, b, d2, f2, s2)
        \<and> b \<notin> set (ids s2)"
  then have r: "append n E C id' d f st = Some (Inr st')"
    and pq: "(through E)\<^sup>*\<^sup>* (n, C, id', d, f, st) (k1, C1, a, d1, f1, s1)"
    and qc: "(through E)\<^sup>+\<^sup>+ (k1, C1, a, d1, f1, s1) (k2, C2, b, d2, f2, s2)"
    and new: "b \<notin> set (ids s2)" by simp_all
  from order_below [OF r pq qc new]
  show "\<exists>pre deps code mid deps' code' post.
          body (toplevel st') =
            body (toplevel st)
              @ map mk_def (pre @ (a, deps, code) # mid @ (b, deps', code') # post)
          \<and> ids st' =
              rev (map fst (pre @ (a, deps, code) # mid @ (b, deps', code') # post)) @ ids st
          \<and> distinct (map fst (pre @ (a, deps, code) # mid @ (b, deps', code') # post))" .
next
  assume "chain E C d f xs \<and> distinct (map fst xs) \<and> set (map fst xs) \<inter> set (ids st) = {}
        \<and> length xs \<le> n"
  then show "bundle' n E C (fst (hd xs)) d f st =
        Some (Inr (st\<lparr>ids := rev (map fst xs) @ ids st,
                       toplevel := Some (body (toplevel st) @ map mk_def xs)\<rparr>))"
    using chain_run [of E C d f xs st n] by simp
qed

theorem dependent_before_dependencies_witness:
  "append 3 site_env site ''app/1.0.0/page'' None None site_start = Some (Inr site_bundled)
   \<and> ''app/1.0.0/page'' \<notin> set (ids site_start)
   \<and> (through site_env)\<^sup>*\<^sup>* (3, site, ''app/1.0.0/page'', None, None, site_start)
        (2, site_packages, ''ez-editor/0.2.4/index'', None, None, at_editor)
   \<and> (through site_env)\<^sup>+\<^sup>+
        (2, site_packages, ''ez-editor/0.2.4/index'', None, None, at_editor)
        (1, site_packages, ''yen/1.2.4/index'', None, None, at_yen)
   \<and> ''yen/1.2.4/index'' \<notin> set (ids at_yen)
   \<and> (\<exists>deps code defs.
          body (toplevel site_bundled) =
            body (toplevel site_start) @ Define ''app/1.0.0/page'' deps code # map mk_def defs
          \<and> ids site_bundled = rev (map fst defs) @ ''app/1.0.0/page'' # ids site_start)
   \<and> (\<exists>pre deps code mid deps' code' post.
          body (toplevel site_bundled) =
            body (toplevel site_start)
              @ map mk_def (pre @ (''ez-editor/0.2.4/index'', deps, code) # mid
                            @ (''yen/1.2.4/index'', deps', code') # post)
          \<and> ids site_bundled =
              rev (map fst (pre @ (''ez-editor/0.2.4/index'', deps, code) # mid
                            @ (''yen/1.2.4/index'', deps', code') # post)) @ ids site_start
          \<and> distinct (map fst (pre @ (''ez-editor/0.2.4/index'', deps, code) # mid
                            @ (''yen/1.2.4/index'', deps', code') # post)))
   \<and> toplevel site_bundled = Some [page_def, header_def, editor_def, yen_def]
   \<and> chain app_env components None None abc \<and> distinct (map fst abc)
   \<and> set (map fst abc) \<inter> set (ids fresh_state) = {} \<and> length abc \<le> 3
   \<and> bundle' 3 app_env components (fst (hd abc)) None None fresh_state =
        Some (Inr (fresh_state\<lparr>ids := rev (map fst abc) @ ids fresh_state,
                       toplevel := Some (body (toplevel fresh_state) @ map mk_def abc)\<rparr>))"
proof -
  have r: "append 3 site_env site ''app/1.0.0/page'' None None site_start = Some (Inr site_bundled)"
    by code_simp
  have p: "''app/1.0.0/page'' \<notin> set (ids site_start)" by code_simp
  note pq = page_reaches_editor
  note qc = editor_includes_yen
  have y: "''yen/1.2.4/index'' \<notin> set (ids at_yen)" by code_simp
  have b: "toplevel site_bundled = Some [page_def, header_def, editor_def, yen_def]"
    by (simp add: site_bundled_def)
  have c: "chain app_env components None None abc \<and> distinct (map fst abc)
      \<and> set (map fst abc) \<inter> set (ids fresh_state) = {} \<and> length abc \<le> 3"
    by code_simp
  note t = dependent_before_dependencies
  from t [where n = 3 and E = site_env and C = site and id' = "''app/1.0.0/page''"
      and d = None and f = None and st = site_start and st' = site_bundled] r p
  have 1: "\<exists>deps code defs.
          body (toplevel site_bundled) =
            body (toplevel site_start) @ Define ''app/1.0.0/page'' deps code # map mk_def defs
          \<and> ids site_bundled = rev (map fst defs) @ ''app/1.0.0/page'' # ids site_start"
    by blast
  from t [where n = 3 and E = site_env and C = site and id' = "''app/1.0.0/page''"
      and d = None and f = None and st = site_start and st' = site_bundled
      and ?k1.0 = 2 and ?C1.0 = site_packages and a = "''ez-editor/0.2.4/index''"
      and ?d1.0 = None and ?f1.0 = None and ?s1.0 = at_editor
      and ?k2.0 = 1 and ?C2.0 = site_packages and b = "''yen/1.2.4/index''" and ?d2.0 = None
      and ?f2.0 = None and ?s2.0 = at_yen] r pq qc y
  have 2: "\<exists>pre deps code mid deps' code' post.
          body (toplevel site_bundled) =
            body (toplevel site_start)
              @ map mk_def (pre @ (''ez-editor/0.2.4/index'', deps, code) # mid
                            @ (''yen/1.2.4/index'', deps', code') # post)
          \<and> ids site_bundled =
              rev (map fst (pre @ (''ez-editor/0.2.4/index'', deps, code) # mid
                            @ (''yen/1.2.4/index'', deps', code') # post)) @ ids site_start
          \<and> distinct (map fst (pre @ (''ez-editor/0.2.4/index'', deps, code) # mid
                            @ (''yen/1.2.4/index'', deps', code') # post))"
    by blast
  from t [where n = 3 and E = app_env and C = components and d = None and f = None
      and xs = abc and st = fresh_state] c
  have 3: "bundle' 3 app_env components (fst (hd abc)) None None fresh_state =
        Some (Inr (fresh_state\<lparr>ids := rev (map fst abc) @ ids fresh_state,
                       toplevel := Some (body (toplevel fresh_state) @ map mk_def abc)\<rparr>))"
    by blast
  from r p pq qc y 1 2 b c 3 show ?thesis by blast
qed

end
